theory Spec2Isabelle
  imports Main "HOL-Library.Word" "HOL-Library.Multiset" "HOL-Library.Sublist" "HOL-Library.AList"
begin

section \<open>Integers, time and strings\<close>

text \<open>
  Go's \<^verbatim>\<open>int\<close> is a 64-bit two's-complement integer on the platforms the server is
  built for: addition wraps around, and comparisons read the signed value (\<open>sint\<close>).
  \<^verbatim>\<open>len\<close> of a map or slice is the exact, non-negative number of elements; it is
  bounded by the address space and therefore modelled by the list length itself.

  \<^verbatim>\<open>time.Now()\<close> reads the process clock. Every reading is an input of the
  operation that takes it, in the order the source takes them. A \<open>Time\<close> is an instant
  on the monotonic clock in nanoseconds; \<^verbatim>\<open>After\<close> and \<^verbatim>\<open>Before\<close> are \<open>>\<close> and \<open><\<close>.
\<close>

type_synonym goint = "64 word"
type_synonym Time = int

text \<open>
  A Go string is a sequence of bytes, and \<^verbatim>\<open>len\<close> counts bytes. \<^verbatim>\<open>strings.TrimSpace\<close>
  and \<^verbatim>\<open>strings.ToLower\<close> belong to the standard library; they are modelled on ASCII
  (tab, line feed, vertical tab, form feed, carriage return and space are white space;
  \<open>A\<close> to \<open>Z\<close> have a lower case). On strings of ASCII bytes the model agrees with Go;
  Go also trims the white space and lowers the letters that UTF-8 encodes in several
  bytes. The general theorems below hold for any choice of white space and of lower
  case; the closed evaluations use ASCII strings only.
\<close>

definition isSpace :: "char \<Rightarrow> bool" where
  "isSpace c = (c \<in> set [CHR 0x09, CHR 0x0A, CHR 0x0B, CHR 0x0C, CHR 0x0D, CHR '' ''])"

definition TrimSpace :: "string \<Rightarrow> string" where
  "TrimSpace s = rev (dropWhile isSpace (rev (dropWhile isSpace s)))"

definition lowerChar :: "char \<Rightarrow> char" where
  "lowerChar c =
     (case map_of (zip ''ABCDEFGHIJKLMNOPQRSTUVWXYZ'' ''abcdefghijklmnopqrstuvwxyz'') c of
        Some l \<Rightarrow> l
      | None \<Rightarrow> c)"

definition ToLower :: "string \<Rightarrow> string" where
  "ToLower s = map lowerChar s"

text \<open>\<^verbatim>\<open>strings.Contains(s, substr)\<close>: \<open>substr\<close> occurs in \<open>s\<close> as a contiguous run.\<close>

fun Contains :: "string \<Rightarrow> string \<Rightarrow> bool" where
  "Contains [] substr = (substr = [])"
| "Contains (c # cs) substr = (prefix substr (c # cs) \<or> Contains cs substr)"

section \<open>Data model (internal/models)\<close>

record Task =
  ID :: goint
  Title :: string
  Description :: string
  Status :: string
  Priority :: string
  CreatedAt :: Time
  UpdatedAt :: Time
  AssignedTo :: string
  Tags :: "string list"

text \<open>
  The filter's string and tag fields carry the prefix \<open>filter\<close>, the requests' fields
  the prefixes \<open>req\<close> and \<open>upd\<close>, since a field name denotes one selector only.
\<close>

record TaskFilter =
  filterStatus :: string
  filterPriority :: string
  filterAssignedTo :: string
  filterTags :: "string list"
  Limit :: goint
  Offset :: goint

record TaskSearchQuery =
  Query :: string
  Fields :: "string list"
  Filters :: TaskFilter
  SortBy :: string
  SortDesc :: bool

text \<open>
  \<^verbatim>\<open>CreateTaskRequest\<close> holds plain strings. A nil and an empty \<^verbatim>\<open>Tags\<close> slice behave
  alike wherever the service reads one (\<^verbatim>\<open>len\<close> and \<^verbatim>\<open>range\<close>), so both are \<open>[]\<close>.
\<close>

record CreateTaskRequest =
  reqTitle :: string
  reqDescription :: string
  reqStatus :: string
  reqPriority :: string
  reqAssignedTo :: string
  reqTags :: "string list"

text \<open>
  \<^verbatim>\<open>UpdateTaskRequest\<close> holds pointers: \<open>None\<close> is the nil pointer of an absent field.
  \<^verbatim>\<open>UpdateTask\<close> tests \<^verbatim>\<open>req.Tags != nil\<close>, so here nil (\<open>None\<close>) and the empty slice
  (\<open>Some []\<close>) differ.
\<close>

record UpdateTaskRequest =
  updTitle :: "string option"
  updDescription :: "string option"
  updStatus :: "string option"
  updPriority :: "string option"
  updAssignedTo :: "string option"
  updTags :: "string list option"

definition IsValidStatus :: "string \<Rightarrow> bool" where
  "IsValidStatus status =
     (status \<in> set [''pending'', ''in-progress'', ''completed'', ''cancelled''])"

definition IsValidPriority :: "string \<Rightarrow> bool" where
  "IsValidPriority priority =
     (priority \<in> set [''low'', ''medium'', ''high'', ''critical''])"

section \<open>Errors\<close>

text \<open>
  The service builds every error with \<^verbatim>\<open>fmt.Errorf\<close>; an error is told from another by
  its message only. One constructor stands for each message format, with the values
  the format prints.
\<close>

datatype error =
    FieldRequired string
  | FieldTooShort string int
  | FieldTooLong string int
  | InvalidStatus string
  | InvalidPriority string
  | TooManyTags int
  | TagEmpty nat
  | TagTooLong string int
  | MaxTasksReached goint
  | TaskNotFound goint

text \<open>The specification's capacity failure is the message "maximum number of tasks (%d) reached".\<close>

fun isCapacityError :: "error \<Rightarrow> bool" where
  "isCapacityError (MaxTasksReached m) = True"
| "isCapacityError e = False"

text \<open>A slice expression whose bounds are out of range panics at run time.\<close>

datatype panic = SliceBoundsOutOfRange

section \<open>Validation helpers (pkg/utils/validation.go)\<close>

definition IsEmpty :: "string \<Rightarrow> bool" where
  "IsEmpty s = (TrimSpace s = [])"

definition ValidateRequired :: "string \<Rightarrow> string \<Rightarrow> error option" where
  "ValidateRequired fieldName v =
     (if IsEmpty v then Some (FieldRequired fieldName) else None)"

definition ValidateLength :: "string \<Rightarrow> string \<Rightarrow> int \<Rightarrow> int \<Rightarrow> error option" where
  "ValidateLength fieldName v minLen maxLen =
     (let n = int (length (TrimSpace v)) in
      if n < minLen then Some (FieldTooShort fieldName minLen)
      else if 0 < maxLen \<and> maxLen < n then Some (FieldTooLong fieldName maxLen)
      else None)"

text \<open>The loop of \<^verbatim>\<open>ValidateTagList\<close>; \<open>i\<close> is the index of the first tag of the list.\<close>

fun validateTags :: "nat \<Rightarrow> string list \<Rightarrow> int \<Rightarrow> error option" where
  "validateTags i [] maxTagLength = None"
| "validateTags i (tag # rest) maxTagLength =
     (let trimmed = TrimSpace tag in
      if trimmed = [] then Some (TagEmpty (i + 1))
      else if maxTagLength < int (length trimmed) then Some (TagTooLong trimmed maxTagLength)
      else validateTags (i + 1) rest maxTagLength)"

definition ValidateTagList :: "string list \<Rightarrow> int \<Rightarrow> int \<Rightarrow> error option" where
  "ValidateTagList tgs maxTags maxTagLength =
     (if maxTags < int (length tgs) then Some (TooManyTags maxTags)
      else validateTags 0 tgs maxTagLength)"

section \<open>The task service\<close>

text \<open>
  \<^verbatim>\<open>tasks\<close> is a Go map from IDs to task pointers. It is an association list with one
  entry per key: \<open>map_of\<close> is the lookup, \<open>AList.update\<close> the assignment
  \<^verbatim>\<open>ts.tasks[k] = t\<close> (it replaces the entry of a key that is present), \<open>AList.delete\<close>
  is \<^verbatim>\<open>delete\<close>, and the length is \<^verbatim>\<open>len\<close>. The order of the list has no meaning: a
  loop over the map visits the entries in an order of its own (\<open>rangeOrder\<close> below).
  Each entry owns its task: \<^verbatim>\<open>CreateTask\<close> allocates a fresh one per key.
\<close>

record TaskService =
  tasks :: "(goint \<times> Task) list"
  nextID :: goint
  maxTasks :: goint

text \<open>
  The validators return at the first check that fails: \<open>orElse a b\<close> is the error of
  \<open>a\<close> if it has one, and the outcome of \<open>b\<close> otherwise.
\<close>

definition orElse :: "error option \<Rightarrow> error option \<Rightarrow> error option" where
  "orElse a b = (case a of Some e \<Rightarrow> Some e | None \<Rightarrow> b)"

definition validateCreateRequest :: "CreateTaskRequest \<Rightarrow> error option" where
  "validateCreateRequest req =
     orElse (ValidateRequired ''title'' (reqTitle req))
    (orElse (ValidateLength ''title'' (reqTitle req) 1 200)
    (orElse (if reqDescription req \<noteq> []
             then ValidateLength ''description'' (reqDescription req) 0 1000 else None)
    (orElse (if reqStatus req \<noteq> [] \<and> \<not> IsValidStatus (reqStatus req)
             then Some (InvalidStatus (reqStatus req)) else None)
    (orElse (if reqPriority req \<noteq> [] \<and> \<not> IsValidPriority (reqPriority req)
             then Some (InvalidPriority (reqPriority req)) else None)
    (ValidateTagList (reqTags req) 10 50)))))"

text \<open>
  \<^verbatim>\<open>ValidateTagList\<close> receives \<^verbatim>\<open>req.Tags\<close> also when it is nil: a nil slice has length 0
  and its loop body never runs.
\<close>

definition validateUpdateRequest :: "UpdateTaskRequest \<Rightarrow> error option" where
  "validateUpdateRequest req =
     orElse (case updTitle req of
               None \<Rightarrow> None
             | Some title \<Rightarrow>
                 orElse (ValidateRequired ''title'' title)
                        (ValidateLength ''title'' title 1 200))
    (orElse (case updDescription req of
               None \<Rightarrow> None
             | Some d \<Rightarrow> ValidateLength ''description'' d 0 1000)
    (orElse (case updStatus req of
               None \<Rightarrow> None
             | Some st \<Rightarrow> if \<not> IsValidStatus st then Some (InvalidStatus st) else None)
    (orElse (case updPriority req of
               None \<Rightarrow> None
             | Some p \<Rightarrow> if \<not> IsValidPriority p then Some (InvalidPriority p) else None)
    (ValidateTagList (case updTags req of None \<Rightarrow> [] | Some tgs \<Rightarrow> tgs) 10 50))))"

text \<open>
  \<^verbatim>\<open>CreateTask\<close> reads the clock twice, once for each timestamp: \<open>now1\<close> is the reading
  stored as \<^verbatim>\<open>CreatedAt\<close>, \<open>now2\<close> the one stored as \<^verbatim>\<open>UpdatedAt\<close>. An error leaves
  the service as it was, so only a success returns a service.
\<close>

definition CreateTask ::
  "TaskService \<Rightarrow> CreateTaskRequest \<Rightarrow> Time \<Rightarrow> Time \<Rightarrow> error + (Task \<times> TaskService)" where
  "CreateTask ts req now1 now2 =
     (case validateCreateRequest req of
        Some e \<Rightarrow> Inl e
      | None \<Rightarrow>
          if sint (maxTasks ts) \<le> int (length (tasks ts))
          then Inl (MaxTasksReached (maxTasks ts))
          else
            let status = (if reqStatus req = [] then ''pending'' else reqStatus req);
                priority = (if reqPriority req = [] then ''medium'' else reqPriority req);
                task = \<lparr> ID = nextID ts,
                         Title = TrimSpace (reqTitle req),
                         Description = TrimSpace (reqDescription req),
                         Status = status,
                         Priority = priority,
                         CreatedAt = now1,
                         UpdatedAt = now2,
                         AssignedTo = TrimSpace (reqAssignedTo req),
                         Tags = reqTags req \<rparr>
            in Inr (task, ts\<lparr> tasks := AList.update (nextID ts) task (tasks ts),
                              nextID := nextID ts + 1 \<rparr>))"

definition GetTask :: "TaskService \<Rightarrow> goint \<Rightarrow> error + Task" where
  "GetTask ts i =
     (case map_of (tasks ts) i of
        None \<Rightarrow> Inl (TaskNotFound i)
      | Some task \<Rightarrow> Inr task)"

definition UpdateTask ::
  "TaskService \<Rightarrow> goint \<Rightarrow> UpdateTaskRequest \<Rightarrow> Time \<Rightarrow> error + (Task \<times> TaskService)" where
  "UpdateTask ts i req now =
     (case map_of (tasks ts) i of
        None \<Rightarrow> Inl (TaskNotFound i)
      | Some task \<Rightarrow>
          (case validateUpdateRequest req of
             Some e \<Rightarrow> Inl e
           | None \<Rightarrow>
               let t1 = (case updTitle req of
                           None \<Rightarrow> task | Some v \<Rightarrow> task\<lparr> Title := TrimSpace v \<rparr>);
                   t2 = (case updDescription req of
                           None \<Rightarrow> t1 | Some v \<Rightarrow> t1\<lparr> Description := TrimSpace v \<rparr>);
                   t3 = (case updStatus req of
                           None \<Rightarrow> t2 | Some v \<Rightarrow> t2\<lparr> Status := v \<rparr>);
                   t4 = (case updPriority req of
                           None \<Rightarrow> t3 | Some v \<Rightarrow> t3\<lparr> Priority := v \<rparr>);
                   t5 = (case updAssignedTo req of
                           None \<Rightarrow> t4 | Some v \<Rightarrow> t4\<lparr> AssignedTo := TrimSpace v \<rparr>);
                   t6 = (case updTags req of
                           None \<Rightarrow> t5 | Some v \<Rightarrow> t5\<lparr> Tags := v \<rparr>);
                   t7 = t6\<lparr> UpdatedAt := now \<rparr>
               in Inr (t7, ts\<lparr> tasks := AList.update i t7 (tasks ts) \<rparr>)))"

definition DeleteTask :: "TaskService \<Rightarrow> goint \<Rightarrow> error + TaskService" where
  "DeleteTask ts i =
     (case map_of (tasks ts) i of
        None \<Rightarrow> Inl (TaskNotFound i)
      | Some task \<Rightarrow> Inr (ts\<lparr> tasks := AList.delete i (tasks ts) \<rparr>))"

subsection \<open>Construction and sample data\<close>

definition sampleTasks :: "CreateTaskRequest list" where
  "sampleTasks =
     [\<lparr> reqTitle = ''Setup project structure'',
        reqDescription = ''Create basic Go project layout with proper package organization'',
        reqStatus = ''completed'', reqPriority = ''high'', reqAssignedTo = ''alice'',
        reqTags = [''setup'', ''infrastructure''] \<rparr>,
      \<lparr> reqTitle = ''Implement API endpoints'',
        reqDescription =
          ''Create REST API endpoints for task management with proper error handling'',
        reqStatus = ''in-progress'', reqPriority = ''high'', reqAssignedTo = ''bob'',
        reqTags = [''api'', ''backend''] \<rparr>,
      \<lparr> reqTitle = ''Add authentication'',
        reqDescription = ''Implement JWT-based authentication and authorization middleware'',
        reqStatus = ''pending'', reqPriority = ''medium'', reqAssignedTo = ''charlie'',
        reqTags = [''auth'', ''security''] \<rparr>,
      \<lparr> reqTitle = ''Write documentation'',
        reqDescription = ''Create comprehensive API documentation and user guides'',
        reqStatus = ''pending'', reqPriority = ''low'', reqAssignedTo = [],
        reqTags = [''docs'', ''documentation''] \<rparr>]"

text \<open>
  \<^verbatim>\<open>addSampleTasks\<close> calls \<^verbatim>\<open>CreateTask\<close> for each sample and drops the result, error
  included. \<open>clock k\<close> is the \<open>k\<close>-th reading the process clock offers; the call for
  sample \<open>i\<close> is offered the readings \<open>2 * i\<close> and \<open>2 * i + 1\<close>.
\<close>

fun addSampleTasks ::
  "TaskService \<Rightarrow> (nat \<Rightarrow> Time) \<Rightarrow> nat \<Rightarrow> CreateTaskRequest list \<Rightarrow> TaskService" where
  "addSampleTasks ts clock i [] = ts"
| "addSampleTasks ts clock i (req # reqs) =
     (case CreateTask ts req (clock (2 * i)) (clock (2 * i + 1)) of
        Inl e \<Rightarrow> addSampleTasks ts clock (i + 1) reqs
      | Inr (task, ts') \<Rightarrow> addSampleTasks ts' clock (i + 1) reqs)"

text \<open>The service as \<^verbatim>\<open>NewTaskService\<close> builds it before it adds the samples.\<close>

definition emptyService :: "goint \<Rightarrow> TaskService" where
  "emptyService m = \<lparr> tasks = [], nextID = 1, maxTasks = m \<rparr>"

definition NewTaskService :: "goint \<Rightarrow> (nat \<Rightarrow> Time) \<Rightarrow> TaskService" where
  "NewTaskService m clock = addSampleTasks (emptyService m) clock 0 sampleTasks"

subsection \<open>Filtering\<close>

text \<open>
  The two nested loops of \<^verbatim>\<open>matchesFilter\<close>: the inner one runs over the task's tags and
  stops at the first that equals \<open>filterTag\<close>; the outer one runs over the filter's tags
  and stops as soon as \<^verbatim>\<open>hasTag\<close> is set.
\<close>

fun taskHasTag :: "string list \<Rightarrow> string \<Rightarrow> bool" where
  "taskHasTag [] filterTag = False"
| "taskHasTag (taskTag # rest) filterTag =
     (if taskTag = filterTag then True else taskHasTag rest filterTag)"

fun hasTag :: "string list \<Rightarrow> string list \<Rightarrow> bool" where
  "hasTag [] taskTags = False"
| "hasTag (filterTag # rest) taskTags =
     (if taskHasTag taskTags filterTag then True else hasTag rest taskTags)"

text \<open>The filter is a pointer; \<open>None\<close> is nil.\<close>

definition matchesFilter :: "Task \<Rightarrow> TaskFilter option \<Rightarrow> bool" where
  "matchesFilter task flt =
     (case flt of
        None \<Rightarrow> True
      | Some f \<Rightarrow>
          if filterStatus f \<noteq> [] \<and> Status task \<noteq> filterStatus f then False
          else if filterPriority f \<noteq> [] \<and> Priority task \<noteq> filterPriority f then False
          else if filterAssignedTo f \<noteq> [] \<and> AssignedTo task \<noteq> filterAssignedTo f then False
          else if 0 < length (filterTags f)
            then (if hasTag (filterTags f) (Tags task) then True else False)
          else True)"

subsection \<open>Free-text search\<close>

text \<open>The loop of \<^verbatim>\<open>matchesSearchQuery\<close> over the fields; an unknown field is skipped.\<close>

fun searchFields :: "Task \<Rightarrow> string \<Rightarrow> string list \<Rightarrow> bool" where
  "searchFields task searchTerm [] = False"
| "searchFields task searchTerm (field # rest) =
     (if field = ''title'' then
        (if Contains (ToLower (Title task)) searchTerm then True
         else searchFields task searchTerm rest)
      else if field = ''description'' then
        (if Contains (ToLower (Description task)) searchTerm then True
         else searchFields task searchTerm rest)
      else searchFields task searchTerm rest)"

definition matchesSearchQuery :: "Task \<Rightarrow> string \<Rightarrow> string list \<Rightarrow> bool" where
  "matchesSearchQuery task searchTerm flds =
     (if searchTerm = [] then True
      else searchFields task searchTerm
             (if length flds = 0 then [''title'', ''description''] else flds))"

subsection \<open>Sorting\<close>

text \<open>
  \<^verbatim>\<open>sort.Slice(tasks, less)\<close> sorts in place by the comparison \<open>lessFn\<close>. It is modelled by
  an insertion sort, which keeps the order of the elements that compare equal. Go's
  sort need not keep it. The slices that are sorted here were collected by a loop over
  the map, so every order of the tasks that compare equal already arises from some
  order of traversal, and the insertion sort loses no result the source can return
  (\<open>SearchTasks_any_sorted_order\<close> and \<open>GetAllTasks_any_sorted_order\<close> below). The
  general theorems below rely on the sort returning a permutation of its argument that
  is ordered by the comparison, and on nothing else.
\<close>

fun insertBy :: "('a \<Rightarrow> 'a \<Rightarrow> bool) \<Rightarrow> 'a \<Rightarrow> 'a list \<Rightarrow> 'a list" where
  "insertBy lessFn x [] = [x]"
| "insertBy lessFn x (y # ys) = (if lessFn y x then y # insertBy lessFn x ys else x # y # ys)"

definition sortSlice :: "('a \<Rightarrow> 'a \<Rightarrow> bool) \<Rightarrow> 'a list \<Rightarrow> 'a list" where
  "sortSlice lessFn xs = foldr (insertBy lessFn) xs []"

definition sortTasks :: "Task list \<Rightarrow> Task list" where
  "sortTasks ts = sortSlice (\<lambda>a b. CreatedAt b < CreatedAt a) ts"

text \<open>The map \<^verbatim>\<open>priorityOrder\<close>; a key that is absent reads as 0.\<close>

definition priorityOrder :: "string \<Rightarrow> int" where
  "priorityOrder p =
     (case map_of [(''low'', 1), (''medium'', 2), (''high'', 3), (''critical'', 4)] p of
        Some n \<Rightarrow> n
      | None \<Rightarrow> 0)"

definition sortTasksBy :: "Task list \<Rightarrow> string \<Rightarrow> bool \<Rightarrow> Task list" where
  "sortTasksBy ts sortBy desc =
     (if sortBy = ''created_at'' then
        sortSlice (\<lambda>a b. if desc then CreatedAt b < CreatedAt a
                          else CreatedAt a < CreatedAt b) ts
      else if sortBy = ''updated_at'' then
        sortSlice (\<lambda>a b. if desc then UpdatedAt b < UpdatedAt a
                          else UpdatedAt a < UpdatedAt b) ts
      else if sortBy = ''priority'' then
        sortSlice (\<lambda>a b. let p1 = priorityOrder (Priority a);
                              p2 = priorityOrder (Priority b)
                          in if desc then p2 < p1 else p1 < p2) ts
      else sortTasks ts)"

subsection \<open>Pagination\<close>

text \<open>
  The slice expression \<^verbatim>\<open>xs[low:high]\<close>. Go panics unless
  \<open>0 \<le> low \<le> high \<le> cap xs\<close>. \<^verbatim>\<open>applyPagination\<close> never passes a \<open>high\<close> above
  \<^verbatim>\<open>len(tasks)\<close>, and the capacity of a slice is at least its length, so the check
  against the length decides the same.
\<close>

definition slice :: "'a list \<Rightarrow> int \<Rightarrow> int \<Rightarrow> panic + 'a list" where
  "slice xs low high =
     (if 0 \<le> low \<and> low \<le> high \<and> high \<le> int (length xs)
      then Inr (take (nat (high - low)) (drop (nat low) xs))
      else Inl SliceBoundsOutOfRange)"

text \<open>\<^verbatim>\<open>offset + limit\<close> is an addition of two Go ints: it wraps around.\<close>

definition applyPagination :: "'a list \<Rightarrow> goint \<Rightarrow> goint \<Rightarrow> panic + 'a list" where
  "applyPagination ts limit offset =
     (if int (length ts) \<le> sint offset then Inr []
      else
        let endIdx = (if 0 < sint limit \<and> sint (offset + limit) < int (length ts)
                      then sint (offset + limit) else int (length ts))
        in slice ts (sint offset) endIdx)"

subsection \<open>Listing and searching\<close>

text \<open>
  \<^verbatim>\<open>for _, task := range ts.tasks\<close> visits every entry of the map once, in an order the
  Go runtime chooses anew for each loop. The choices are an input of the operation that
  runs the loop: \<open>rangeOrder cs entries\<close> is the order of the visit under the choices
  \<open>cs\<close>, where each choice is the place an entry takes among those that follow it in
  the list. Whatever the choices, every entry is visited once (\<open>mset_rangeOrder\<close>
  below), and every order of the entries is the visit of some choices
  (\<open>rangeOrder_any_order\<close> below).
\<close>

fun rangeOrder :: "nat list \<Rightarrow> 'a list \<Rightarrow> 'a list" where
  "rangeOrder cs [] = []"
| "rangeOrder [] (x # xs) = x # xs"
| "rangeOrder (c # cs) (x # xs) =
     (let rest = rangeOrder cs xs; i = c mod Suc (length rest)
      in take i rest @ x # drop i rest)"

text \<open>
  \<^verbatim>\<open>GetAllTasks\<close> always returns a nil error, so its outcome is the slice or a panic.
  \<^verbatim>\<open>SearchTasks\<close> has no slice expression and always returns its slice. Both take the
  choices \<open>cs\<close> of their loop over the map.
\<close>

definition GetAllTasks ::
  "TaskService \<Rightarrow> nat list \<Rightarrow> TaskFilter option \<Rightarrow> panic + Task list" where
  "GetAllTasks ts cs flt =
     (let matching = filter (\<lambda>task. matchesFilter task flt)
                            (map snd (rangeOrder cs (tasks ts)));
          ordered = sortTasks matching
      in case flt of
           None \<Rightarrow> Inr ordered
         | Some f \<Rightarrow>
             if 0 < sint (Limit f) \<or> 0 < sint (Offset f)
             then applyPagination ordered (Limit f) (Offset f)
             else Inr ordered)"

definition SearchTasks :: "TaskService \<Rightarrow> nat list \<Rightarrow> TaskSearchQuery \<Rightarrow> Task list" where
  "SearchTasks ts cs query =
     (let searchTerm = ToLower (TrimSpace (Query query));
          results = filter (\<lambda>task. matchesFilter task (Some (Filters query)) \<and>
                                    matchesSearchQuery task searchTerm (Fields query))
                           (map snd (rangeOrder cs (tasks ts)))
      in sortTasksBy results (SortBy query) (SortDesc query))"

section \<open>Reachable services\<close>

text \<open>
  \<open>reach c h ts\<close>: the service \<open>ts\<close> results from \<^verbatim>\<open>NewTaskService\<close>'s empty service by
  successful calls of \<^verbatim>\<open>CreateTask\<close>, \<^verbatim>\<open>UpdateTask\<close> and \<^verbatim>\<open>DeleteTask\<close> (a failed call
  changes nothing). \<open>c\<close> is the latest reading of the clock, and the readings never go
  back, as those of Go's monotonic clock within one process. \<open>h\<close> lists the IDs that
  \<^verbatim>\<open>CreateTask\<close> has assigned, the latest first.
\<close>

inductive reach :: "Time \<Rightarrow> goint list \<Rightarrow> TaskService \<Rightarrow> bool" where
  reach_new: "reach c [] (emptyService m)"
| reach_create:
    "reach c h ts \<Longrightarrow> c \<le> now1 \<Longrightarrow> now1 \<le> now2 \<Longrightarrow>
     CreateTask ts req now1 now2 = Inr (task, ts') \<Longrightarrow> reach now2 (ID task # h) ts'"
| reach_update:
    "reach c h ts \<Longrightarrow> c \<le> now \<Longrightarrow>
     UpdateTask ts i req now = Inr (task, ts') \<Longrightarrow> reach now h ts'"
| reach_delete:
    "reach c h ts \<Longrightarrow> DeleteTask ts i = Inr ts' \<Longrightarrow> reach c h ts'"

definition reachable :: "TaskService \<Rightarrow> bool" where
  "reachable ts = (\<exists>c h. reach c h ts)"

section \<open>The specification's predicates\<close>

text \<open>
  The filter of the specification: a field that is empty imposes no constraint, status,
  priority and assignee match exactly, the tags match when the task shares a tag with
  the filter, and the active fields are combined by conjunction.
\<close>

definition filterSpec :: "TaskFilter \<Rightarrow> Task \<Rightarrow> bool" where
  "filterSpec f t =
     ((filterStatus f \<noteq> [] \<longrightarrow> Status t = filterStatus f) \<and>
      (filterPriority f \<noteq> [] \<longrightarrow> Priority t = filterPriority f) \<and>
      (filterAssignedTo f \<noteq> [] \<longrightarrow> AssignedTo t = filterAssignedTo f) \<and>
      (filterTags f \<noteq> [] \<longrightarrow> set (Tags t) \<inter> set (filterTags f) \<noteq> {}))"

definition emptyFilter :: TaskFilter where
  "emptyFilter = \<lparr> filterStatus = [], filterPriority = [], filterAssignedTo = [],
                   filterTags = [], Limit = 0, Offset = 0 \<rparr>"

text \<open>
  The free-text match of the specification. The searched fields are the requested ones
  among title and description, and both when none is requested. \<open>containsFold s q\<close>:
  \<open>q\<close> is a substring of \<open>s\<close> up to letter case.
\<close>

definition searchedFields :: "string list \<Rightarrow> string set" where
  "searchedFields flds =
     (if flds = [] then {''title'', ''description''}
      else set flds \<inter> {''title'', ''description''})"

definition fieldContent :: "string \<Rightarrow> Task \<Rightarrow> string" where
  "fieldContent field t = (if field = ''title'' then Title t else Description t)"

definition containsFold :: "string \<Rightarrow> string \<Rightarrow> bool" where
  "containsFold s q = sublist (ToLower q) (ToLower s)"

text \<open>As the claim words it: the query string itself is looked for.\<close>

definition searchSpecVerbatim :: "TaskSearchQuery \<Rightarrow> Task \<Rightarrow> bool" where
  "searchSpecVerbatim q t =
     (Query q = [] \<or>
      (\<exists>field \<in> searchedFields (Fields q). containsFold (fieldContent field t) (Query q)))"

text \<open>As the source does it: the query string is trimmed of surrounding white space first.\<close>

definition searchSpecTrimmed :: "TaskSearchQuery \<Rightarrow> Task \<Rightarrow> bool" where
  "searchSpecTrimmed q t =
     (TrimSpace (Query q) = [] \<or>
      (\<exists>field \<in> searchedFields (Fields q).
          containsFold (fieldContent field t) (TrimSpace (Query q))))"

text \<open>
  The order of a search result: the key by which it ascends. An unknown sort key falls
  back to the creation time, the newest first, whatever the direction.
\<close>

definition sortKey :: "string \<Rightarrow> bool \<Rightarrow> Task \<Rightarrow> int" where
  "sortKey sortBy desc t =
     (if sortBy = ''created_at'' then (if desc then - CreatedAt t else CreatedAt t)
      else if sortBy = ''updated_at'' then (if desc then - UpdatedAt t else UpdatedAt t)
      else if sortBy = ''priority''
        then (if desc then - priorityOrder (Priority t) else priorityOrder (Priority t))
      else - CreatedAt t)"

text \<open>A result of \<^verbatim>\<open>CreateTask\<close> that is the capacity failure.\<close>

definition failsWithCapacityError :: "error + 'a \<Rightarrow> bool" where
  "failsWithCapacityError r = (case r of Inl e \<Rightarrow> isCapacityError e | Inr x \<Rightarrow> False)"

section \<open>Invariants of counting and concrete inputs\<close>

text \<open>
  What holds of the ID counter while it has not wrapped around: the counter is one more
  than the number of IDs assigned, every key of the map has been assigned, every
  assigned ID is below the counter, and the IDs were assigned in increasing order.
\<close>

definition counterInv :: "goint list \<Rightarrow> TaskService \<Rightarrow> bool" where
  "counterInv h ts =
     (sint (nextID ts) = int (length h) + 1 \<and>
      fst ` set (tasks ts) \<subseteq> set h \<and>
      (\<forall>x \<in> set h. sint x < sint (nextID ts)) \<and>
      sorted_wrt (\<lambda>a b. sint b < sint a) h)"

text \<open>
  A request, the task \<^verbatim>\<open>CreateTask\<close> makes of it under the ID \<open>i\<close> when both clock
  readings are 0, and the service that holds this one task: inputs of the closed
  instances below.
\<close>

definition exRequest :: CreateTaskRequest where
  "exRequest = \<lparr> reqTitle = ''Ship it'', reqDescription = [], reqStatus = [],
                  reqPriority = [], reqAssignedTo = [], reqTags = [] \<rparr>"

definition exTask :: "goint \<Rightarrow> Task" where
  "exTask i = \<lparr> ID = i, Title = ''Ship it'', Description = [], Status = ''pending'',
                Priority = ''medium'', CreatedAt = 0, UpdatedAt = 0, AssignedTo = [],
                Tags = [] \<rparr>"

definition exService :: TaskService where
  "exService = \<lparr> tasks = [(1, exTask 1)], nextID = 2, maxTasks = 5 \<rparr>"

section \<open>Basic facts\<close>

lemma orElse_None: "(orElse a b = None) = (a = None \<and> b = None)"
  by (simp add: orElse_def split: option.splits)

lemma CreateTask_InrD:
  "CreateTask ts req n1 n2 = Inr (task, ts') \<Longrightarrow>
     validateCreateRequest req = None \<and> int (length (tasks ts)) < sint (maxTasks ts) \<and>
     ID task = nextID ts \<and> CreatedAt task = n1 \<and> UpdatedAt task = n2 \<and>
     tasks ts' = AList.update (nextID ts) task (tasks ts) \<and>
     nextID ts' = nextID ts + 1 \<and> maxTasks ts' = maxTasks ts"
  by (auto simp: CreateTask_def Let_def split: option.splits if_splits)

lemma UpdateTask_InrD:
  "UpdateTask ts i req now = Inr (task, ts') \<Longrightarrow>
     \<exists>old. map_of (tasks ts) i = Some old \<and> ID task = ID old \<and>
       CreatedAt task = CreatedAt old \<and> UpdatedAt task = now \<and>
       tasks ts' = AList.update i task (tasks ts) \<and>
       nextID ts' = nextID ts \<and> maxTasks ts' = maxTasks ts"
  by (auto simp: UpdateTask_def Let_def split: option.splits)

lemma DeleteTask_InrD:
  "DeleteTask ts i = Inr ts' \<Longrightarrow>
     tasks ts' = AList.delete i (tasks ts) \<and> nextID ts' = nextID ts \<and>
     maxTasks ts' = maxTasks ts"
  by (auto simp: DeleteTask_def split: option.splits)

lemma length_update_present:
  "k \<in> fst ` set al \<Longrightarrow> length (AList.update k v al) = length al"
  by (induction al) auto

lemma map_of_Some_key: "map_of al k = Some v \<Longrightarrow> k \<in> fst ` set al"
  by (metis map_of_eq_None_iff option.distinct(1))

text \<open>Signed 64-bit addition is exact as long as the sum stays below \<open>2 ^ 63\<close>.\<close>

lemma sint_add_no_overflow:
  fixes a b :: goint
  assumes "0 \<le> sint a" and "0 \<le> sint b" and "sint a + sint b < 2 ^ 63"
  shows "sint (a + b) = sint a + sint b"
proof -
  have "sint (a + b) = signed_take_bit 63 (sint a + sint b)"
    using sint_word_add [of a b] by simp
  also have "\<dots> = sint a + sint b"
    using assms by (intro signed_take_bit_int_eq_self) simp_all
  finally show ?thesis .
qed

lemma sint_succ:
  fixes x :: goint
  assumes "sint x < 2 ^ 63 - 1"
  shows "sint (x + 1) = sint x + 1"
proof -
  have "sint (x + 1) = signed_take_bit 63 (sint x + 1)"
    using sint_word_add [of x 1] by simp
  also have "\<dots> = sint x + 1"
    using assms sint_ge [of x] by (intro signed_take_bit_int_eq_self) simp_all
  finally show ?thesis .
qed

subsection \<open>Filtering, searching and sorting\<close>

lemma taskHasTag_iff: "taskHasTag tgs x = (x \<in> set tgs)"
  by (induction tgs) auto

lemma hasTag_iff: "hasTag ftags tgs = (set tgs \<inter> set ftags \<noteq> {})"
  by (induction ftags) (auto simp: taskHasTag_iff)

lemma matchesFilter_spec: "matchesFilter t (Some f) = filterSpec f t"
  by (simp add: matchesFilter_def filterSpec_def hasTag_iff)

lemma matchesFilter_window:
  "matchesFilter t (Some (f\<lparr> Limit := l, Offset := off \<rparr>)) = matchesFilter t (Some f)"
  by (simp add: matchesFilter_def)

lemma mset_insertBy: "mset (insertBy lessFn x xs) = add_mset x (mset xs)"
  by (induction xs) auto

lemma mset_sortSlice: "mset (sortSlice lessFn xs) = mset xs"
  by (induction xs) (auto simp: sortSlice_def mset_insertBy)

lemma mset_sortTasks: "mset (sortTasks xs) = mset xs"
  by (simp add: sortTasks_def mset_sortSlice)

lemma mset_sortTasksBy: "mset (sortTasksBy xs k d) = mset xs"
  by (simp add: sortTasksBy_def mset_sortSlice mset_sortTasks)

text \<open>The sort orders its argument, for a comparison that compares a key.\<close>

lemma set_insertBy: "set (insertBy lessFn x xs) = insert x (set xs)"
  by (induction xs) auto

lemma sorted_insertBy:
  fixes k :: "'a \<Rightarrow> int"
  assumes "\<And>a b. lessFn a b = (k a < k b)"
  shows "sorted_wrt (\<lambda>a b. k a \<le> k b) xs \<Longrightarrow>
         sorted_wrt (\<lambda>a b. k a \<le> k b) (insertBy lessFn x xs)"
  by (induction xs) (auto simp: assms set_insertBy)

lemma sorted_sortSlice:
  fixes k :: "'a \<Rightarrow> int"
  assumes "\<And>a b. lessFn a b = (k a < k b)"
  shows "sorted_wrt (\<lambda>a b. k a \<le> k b) (sortSlice lessFn xs)"
  by (induction xs) (simp_all add: sortSlice_def sorted_insertBy [OF assms])

lemma sorted_sortTasks: "sorted_wrt (\<lambda>a b. CreatedAt b \<le> CreatedAt a) (sortTasks xs)"
  using sorted_sortSlice [of "\<lambda>a b. CreatedAt b < CreatedAt a" "\<lambda>t. - CreatedAt t" xs]
  by (simp add: sortTasks_def)

lemma sorted_sortTasksBy:
  "sorted_wrt (\<lambda>a b. sortKey s d a \<le> sortKey s d b) (sortTasksBy xs s d)"
proof -
  have key: "sorted_wrt (\<lambda>a b. k a \<le> k b) (sortSlice (\<lambda>a b. k a < k b) xs)"
    for k :: "Task \<Rightarrow> int"
    by (rule sorted_sortSlice) simp
  show ?thesis
  proof (cases d)
    case True
    then show ?thesis
      using key [of "\<lambda>t. - CreatedAt t"] key [of "\<lambda>t. - UpdatedAt t"]
        key [of "\<lambda>t. - priorityOrder (Priority t)"]
      by (simp add: sortTasksBy_def sortKey_def sortTasks_def Let_def)
  next
    case False
    then show ?thesis
      using key [of "\<lambda>t. - CreatedAt t"] key [of CreatedAt] key [of UpdatedAt]
        key [of "\<lambda>t. priorityOrder (Priority t)"]
      by (simp add: sortTasksBy_def sortKey_def sortTasks_def Let_def)
  qed
qed

subsection \<open>The order of a loop over the map\<close>

lemma mset_rangeOrder: "mset (rangeOrder cs xs) = mset xs"
proof (induction cs xs rule: rangeOrder.induct)
  case (3 c cs x xs)
  let ?rest = "rangeOrder cs xs"
  let ?i = "c mod Suc (length ?rest)"
  have "mset (take ?i ?rest @ x # drop ?i ?rest) =
      add_mset x (mset (take ?i ?rest @ drop ?i ?rest))"
    by (simp del: append_take_drop_id)
  then have "mset (take ?i ?rest @ x # drop ?i ?rest) = add_mset x (mset ?rest)"
    by (simp only: append_take_drop_id)
  with 3 show ?case
    by (simp add: Let_def del: mset_append)
qed simp_all

lemma rangeOrder_any_order: "mset ys = mset xs \<Longrightarrow> \<exists>cs. rangeOrder cs xs = ys"
proof (induction xs arbitrary: ys)
  case Nil
  then show ?case by (intro exI [of _ "[]"]) simp
next
  case (Cons x xs)
  from Cons.prems have "x \<in> set ys"
    by (metis list.set_intros(1) set_mset_mset)
  then obtain a b where ys: "ys = a @ x # b"
    by (auto simp: in_set_conv_decomp)
  with Cons.prems have "mset (a @ b) = mset xs"
    by simp
  from Cons.IH [OF this] obtain cs where cs: "rangeOrder cs xs = a @ b"
    by blast
  have "rangeOrder (length a # cs) (x # xs) = ys"
    by (simp add: cs ys Let_def)
  then show ?case by blast
qed

lemma mset_visited: "mset (map snd (rangeOrder cs al)) = mset (map snd al)"
  using mset_rangeOrder [of cs al] by (metis mset_map)

subsection \<open>Every ordered result is the result of some traversal\<close>

text \<open>
  The sort leaves a slice that is already ordered by the key as it is. So a list of the
  matching tasks, each once, that is ordered by the key is what the operation returns
  when its loop over the map visits the matching tasks in the order of that list: the
  model has every result that a sort which orders ties differently could return.
\<close>

lemma insertBy_least:
  fixes k :: "'a \<Rightarrow> int"
  assumes "\<And>a b. lessFn a b = (k a < k b)" and "\<forall>y \<in> set xs. k x \<le> k y"
  shows "insertBy lessFn x xs = x # xs"
  using assms(2) by (cases xs) (auto simp: assms(1))

lemma sortSlice_sorted_id:
  fixes k :: "'a \<Rightarrow> int"
  assumes "\<And>a b. lessFn a b = (k a < k b)"
  shows "sorted_wrt (\<lambda>a b. k a \<le> k b) xs \<Longrightarrow> sortSlice lessFn xs = xs"
proof (induction xs)
  case Nil
  show ?case by (simp add: sortSlice_def)
next
  case (Cons x xs)
  then have a: "foldr (insertBy lessFn) xs [] = xs" and "\<forall>y \<in> set xs. k x \<le> k y"
    by (auto simp: sortSlice_def)
  from insertBy_least [OF assms this(2)] have "insertBy lessFn x xs = x # xs" .
  with a show ?case
    by (simp add: sortSlice_def)
qed

lemma sortTasks_sorted_id:
  "sorted_wrt (\<lambda>a b. CreatedAt b \<le> CreatedAt a) xs \<Longrightarrow> sortTasks xs = xs"
  using sortSlice_sorted_id [of "\<lambda>a b. CreatedAt b < CreatedAt a" "\<lambda>t. - CreatedAt t" xs]
  by (simp add: sortTasks_def)

lemma sortTasksBy_sorted_id:
  assumes "sorted_wrt (\<lambda>a b. sortKey s d a \<le> sortKey s d b) xs"
  shows "sortTasksBy xs s d = xs"
proof -
  have key: "sortSlice (\<lambda>a b. k a < k b) xs = xs"
    if "sortKey s d = k" for k :: "Task \<Rightarrow> int"
    using assms unfolding that by (intro sortSlice_sorted_id) simp_all
  consider (created) "s = ''created_at''"
    | (updated) "s \<noteq> ''created_at''" "s = ''updated_at''"
    | (priority) "s \<noteq> ''created_at''" "s \<noteq> ''updated_at''" "s = ''priority''"
    | (other) "s \<noteq> ''created_at''" "s \<noteq> ''updated_at''" "s \<noteq> ''priority''"
    by blast
  then show ?thesis
  proof cases
    case created
    show ?thesis
    proof (cases d)
      case True
      have "sortKey s d = (\<lambda>t. - CreatedAt t)"
        by (simp add: sortKey_def created True fun_eq_iff)
      from key [OF this] show ?thesis
        by (simp add: sortTasksBy_def created True)
    next
      case False
      have "sortKey s d = CreatedAt"
        by (simp add: sortKey_def created False fun_eq_iff)
      from key [OF this] show ?thesis
        by (simp add: sortTasksBy_def created False)
    qed
  next
    case updated
    show ?thesis
    proof (cases d)
      case True
      have "sortKey s d = (\<lambda>t. - UpdatedAt t)"
        by (simp add: sortKey_def updated True fun_eq_iff)
      from key [OF this] show ?thesis
        by (simp add: sortTasksBy_def updated True)
    next
      case False
      have "sortKey s d = UpdatedAt"
        by (simp add: sortKey_def updated False fun_eq_iff)
      from key [OF this] show ?thesis
        by (simp add: sortTasksBy_def updated False)
    qed
  next
    case priority
    show ?thesis
    proof (cases d)
      case True
      have "sortKey s d = (\<lambda>t. - priorityOrder (Priority t))"
        by (simp add: sortKey_def priority True fun_eq_iff)
      from key [OF this] show ?thesis
        by (simp add: sortTasksBy_def priority True Let_def)
    next
      case False
      have "sortKey s d = (\<lambda>t. priorityOrder (Priority t))"
        by (simp add: sortKey_def priority False fun_eq_iff)
      from key [OF this] show ?thesis
        by (simp add: sortTasksBy_def priority False Let_def)
    qed
  next
    case other
    have "sortKey s d = (\<lambda>t. - CreatedAt t)"
      by (simp add: sortKey_def other fun_eq_iff)
    from key [OF this] show ?thesis
      by (simp add: sortTasksBy_def sortTasks_def other)
  qed
qed

lemma ex_preimage_list:
  "mset r = mset (map f xs) \<Longrightarrow> \<exists>zs. mset zs = mset xs \<and> map f zs = r"
proof (induction r arbitrary: xs)
  case Nil
  then show ?case by simp
next
  case (Cons y r)
  from Cons.prems have "y \<in> set (map f xs)"
    by (metis list.set_intros(1) set_mset_mset)
  then obtain x where x: "x \<in> set xs" and y: "f x = y" by auto
  from x obtain us vs where xs: "xs = us @ x # vs" by (meson split_list)
  have "mset r = mset (map f (us @ vs))"
    using Cons.prems unfolding xs y [symmetric] by simp
  from Cons.IH [OF this] obtain zs where zs: "mset zs = mset (us @ vs)" "map f zs = r"
    by blast
  have "mset (x # zs) = mset xs" unfolding xs using zs(1) by simp
  moreover have "map f (x # zs) = y # r" using zs(2) y by simp
  ultimately show ?case by (intro exI [of _ "x # zs"] conjI)
qed

lemma filtered_visit_any_order:
  assumes "mset r = mset (filter P (map snd al))"
  shows "\<exists>cs. filter P (map snd (rangeOrder cs al)) = r"
proof -
  have "filter P (map snd al) = map snd (filter (P \<circ> snd) al)"
    by (simp add: filter_map)
  with assms have "mset r = mset (map snd (filter (P \<circ> snd) al))" by simp
  from ex_preimage_list [OF this] obtain zs
    where zs: "mset zs = mset (filter (P \<circ> snd) al)" "map snd zs = r"
    by (elim exE conjE)
  let ?al' = "zs @ filter (\<lambda>e. \<not> P (snd e)) al"
  have "mset ?al' = mset al"
    using zs(1) by (simp add: comp_def)
  from rangeOrder_any_order [OF this] obtain cs where cs: "rangeOrder cs al = ?al'" ..
  from assms have "set r = set (filter P (map snd al))"
    by (rule mset_eq_setD)
  then have "\<forall>t \<in> set r. P t" by auto
  then have "filter P r = r" by simp
  moreover have "filter P (map snd (filter (\<lambda>e. \<not> P (snd e)) al)) = []"
    by (simp add: filter_map comp_def)
  ultimately have "filter P (map snd ?al') = r"
    using zs(2) by simp
  with cs have "filter P (map snd (rangeOrder cs al)) = r" by simp
  then show ?thesis ..
qed

lemma SearchTasks_any_sorted_order:
  assumes "mset r = mset (filter (\<lambda>t. matchesFilter t (Some (Filters q)) \<and>
                        matchesSearchQuery t (ToLower (TrimSpace (Query q))) (Fields q))
                  (map snd (tasks ts)))"
    and "sorted_wrt (\<lambda>a b. sortKey (SortBy q) (SortDesc q) a \<le> sortKey (SortBy q) (SortDesc q) b) r"
  shows "\<exists>cs. SearchTasks ts cs q = r"
proof -
  from filtered_visit_any_order [OF assms(1)] obtain cs where
    "filter (\<lambda>t. matchesFilter t (Some (Filters q)) \<and>
                        matchesSearchQuery t (ToLower (TrimSpace (Query q))) (Fields q))
       (map snd (rangeOrder cs (tasks ts))) = r"
    ..
  then have "SearchTasks ts cs q = r"
    using sortTasksBy_sorted_id [OF assms(2)] by (simp add: SearchTasks_def)
  then show ?thesis ..
qed

lemma GetAllTasks_any_sorted_order:
  assumes "mset r = mset (filter (\<lambda>t. matchesFilter t flt) (map snd (tasks ts)))"
    and "sorted_wrt (\<lambda>a b. CreatedAt b \<le> CreatedAt a) r"
    and "flt = None \<or> flt = Some f \<and> \<not> (0 < sint (Limit f) \<or> 0 < sint (Offset f))"
  shows "\<exists>cs. GetAllTasks ts cs flt = Inr r"
proof -
  from filtered_visit_any_order [OF assms(1)] obtain cs where
    "filter (\<lambda>t. matchesFilter t flt) (map snd (rangeOrder cs (tasks ts))) = r"
    ..
  then have "GetAllTasks ts cs flt = Inr r"
    using sortTasks_sorted_id [OF assms(2)] assms(3) by (auto simp: GetAllTasks_def)
  then show ?thesis ..
qed

subsection \<open>Free-text search\<close>

lemma Contains_sublist: "Contains s sub = sublist sub s"
  by (induction s) (auto simp: sublist_Cons_right)

lemma searchFields_iff:
  "searchFields t term flds =
     (\<exists>field \<in> set flds \<inter> {''title'', ''description''}.
        sublist term (ToLower (fieldContent field t)))"
proof -
  define T where "T = ''title''"
  define D where "D = ''description''"
  have ne: "D \<noteq> T"
    by (simp add: T_def D_def)
  have fc: "fieldContent f t = (if f = T then Title t else Description t)" for f
    by (simp add: fieldContent_def T_def)
  have step: "searchFields t term (f # rest) =
      (if f = T then (if Contains (ToLower (Title t)) term then True
                      else searchFields t term rest)
       else if f = D then (if Contains (ToLower (Description t)) term then True
                           else searchFields t term rest)
       else searchFields t term rest)" for f rest
    by (simp add: T_def D_def)
  have "searchFields t term flds =
      (\<exists>field \<in> set flds \<inter> {T, D}. sublist term (ToLower (fieldContent field t)))"
  proof (induction flds)
    case Nil
    show ?case by simp
  next
    case (Cons f rest)
    show ?case
      using ne by (auto simp add: step Cons.IH fc Contains_sublist simp del: searchFields.simps)
  qed
  then show ?thesis
    by (simp only: T_def D_def)
qed

lemma ToLower_Nil_iff: "(ToLower s = []) = (s = [])"
  by (simp add: ToLower_def)

lemma searchFields_default:
  "searchFields t term [''title'', ''description''] =
     (sublist term (ToLower (Title t)) \<or> sublist term (ToLower (Description t)))"
  by (simp add: Contains_sublist)

lemma searchedFields_Nil:
  "(\<exists>field \<in> searchedFields []. P (fieldContent field t)) = (P (Title t) \<or> P (Description t))"
  by (simp add: searchedFields_def fieldContent_def)

lemma matchesSearchQuery_spec:
  "matchesSearchQuery t (ToLower (TrimSpace (Query q))) (Fields q) = searchSpecTrimmed q t"
proof (cases "Fields q = []")
  case True
  then show ?thesis
    using searchedFields_Nil [of "\<lambda>s. sublist (ToLower (TrimSpace (Query q))) (ToLower s)" t]
    by (simp add: matchesSearchQuery_def searchSpecTrimmed_def searchFields_default
        containsFold_def ToLower_Nil_iff del: searchFields.simps)
next
  case False
  then show ?thesis
    by (simp add: matchesSearchQuery_def searchSpecTrimmed_def searchFields_iff
        containsFold_def ToLower_Nil_iff searchedFields_def)
qed

subsection \<open>Pagination\<close>

lemma slice_sublist: "slice xs lo hi = Inr r \<Longrightarrow> sublist r xs"
  by (auto simp: slice_def split: if_splits
      intro: sublist_order.order_trans [OF sublist_take sublist_drop])

lemma applyPagination_sublist: "applyPagination xs l off = Inr r \<Longrightarrow> sublist r xs"
  by (auto simp: applyPagination_def Let_def split: if_splits dest: slice_sublist)

text \<open>
  Where \<^verbatim>\<open>offset + limit\<close> does not overflow, \<^verbatim>\<open>applyPagination\<close> returns the window the
  specification describes: nothing when the offset is past the end, \<open>limit\<close> elements
  from \<open>offset\<close> on (fewer at the end of the list) for a positive limit, and
  everything from \<open>offset\<close> on for the limit 0.
\<close>

lemma applyPagination_window:
  assumes "0 \<le> sint offset" and "0 \<le> sint limit" and "sint offset + sint limit < 2 ^ 63"
  shows "applyPagination xs limit offset =
           Inr (if 0 < sint limit
                then take (nat (sint limit)) (drop (nat (sint offset)) xs)
                else drop (nat (sint offset)) xs)"
proof -
  have s: "sint (offset + limit) = sint offset + sint limit"
    using assms by (rule sint_add_no_overflow)
  show ?thesis
    using assms(1,2)
    by (auto simp: applyPagination_def slice_def Let_def s nat_diff_distrib nat_add_distrib)
qed

subsection \<open>Validation of tags\<close>

lemma validateTags_NoneD:
  "validateTags i tgs m = None \<Longrightarrow>
     \<forall>tag \<in> set tgs. TrimSpace tag \<noteq> [] \<and> int (length (TrimSpace tag)) \<le> m"
  by (induction tgs arbitrary: i) (auto simp: Let_def split: if_splits)

lemma ValidateTagList_NoneD:
  "ValidateTagList tgs 10 50 = None \<Longrightarrow>
     length tgs \<le> 10 \<and>
     (\<forall>tag \<in> set tgs. TrimSpace tag \<noteq> [] \<and> length (TrimSpace tag) \<le> 50)"
  by (auto simp: ValidateTagList_def split: if_splits dest!: validateTags_NoneD)

section \<open>Invariants of the reachable services\<close>

text \<open>The association list of a reachable service has one entry per key, as a Go map.\<close>

lemma reach_distinct: "reach c h ts \<Longrightarrow> distinct (map fst (tasks ts))"
proof (induction rule: reach.induct)
  case (reach_new c m)
  show ?case by (simp add: emptyService_def)
next
  case (reach_create c h ts now1 now2 req task ts')
  then show ?case by (auto dest!: CreateTask_InrD simp: distinct_update)
next
  case (reach_update c h ts now i req task ts')
  then show ?case by (auto dest!: UpdateTask_InrD simp: distinct_update)
next
  case (reach_delete c h ts i ts')
  then show ?case by (auto dest!: DeleteTask_InrD simp: distinct_delete)
qed

text \<open>
  A stored task carries the ID it is stored under, it was not updated before it was
  created, and it was not updated after the latest reading of the clock.
\<close>

lemma reach_stamps:
  "reach c h ts \<Longrightarrow> map_of (tasks ts) k = Some t \<Longrightarrow>
     ID t = k \<and> CreatedAt t \<le> UpdatedAt t \<and> UpdatedAt t \<le> c"
proof (induction arbitrary: k t rule: reach.induct)
  case (reach_new c m)
  then show ?case by (simp add: emptyService_def)
next
  case (reach_create c h ts now1 now2 req task ts')
  from reach_create.hyps(4) have d: "ID task = nextID ts" "CreatedAt task = now1"
    "UpdatedAt task = now2" "tasks ts' = AList.update (nextID ts) task (tasks ts)"
    by (auto dest: CreateTask_InrD)
  show ?case
  proof (cases "k = nextID ts")
    case True
    with reach_create.prems d have "t = task" by (simp add: update_conv')
    with d True reach_create.hyps show ?thesis by simp
  next
    case False
    with reach_create.prems d have "map_of (tasks ts) k = Some t" by (simp add: update_conv')
    from reach_create.IH [OF this] reach_create.hyps show ?thesis by simp
  qed
next
  case (reach_update c h ts now i req task ts')
  from reach_update.hyps(3) obtain old where d: "map_of (tasks ts) i = Some old"
    "ID task = ID old" "CreatedAt task = CreatedAt old" "UpdatedAt task = now"
    "tasks ts' = AList.update i task (tasks ts)"
    by (auto dest: UpdateTask_InrD)
  show ?case
  proof (cases "k = i")
    case True
    with reach_update.prems d have "t = task" by (simp add: update_conv')
    with d True reach_update.IH [OF d(1)] reach_update.hyps show ?thesis by simp
  next
    case False
    with reach_update.prems d have "map_of (tasks ts) k = Some t" by (simp add: update_conv')
    from reach_update.IH [OF this] reach_update.hyps show ?thesis by simp
  qed
next
  case (reach_delete c h ts i ts')
  from reach_delete.hyps(2) have d: "tasks ts' = AList.delete i (tasks ts)"
    by (auto dest: DeleteTask_InrD)
  with reach_delete.prems have "map_of (tasks ts) k = Some t"
    by (auto simp: delete_conv' split: if_splits)
  from reach_delete.IH [OF this] show ?case .
qed

text \<open>While fewer than \<open>2 ^ 63 - 1\<close> IDs have been assigned the counter has not wrapped.\<close>

lemma reach_counter:
  "reach c h ts \<Longrightarrow> int (length h) < 2 ^ 63 - 1 \<Longrightarrow> counterInv h ts"
proof (induction rule: reach.induct)
  case (reach_new c m)
  show ?case by (simp add: counterInv_def emptyService_def)
next
  case (reach_create c h ts now1 now2 req task ts')
  from reach_create.hyps(4) have d: "ID task = nextID ts"
    "tasks ts' = AList.update (nextID ts) task (tasks ts)" "nextID ts' = nextID ts + 1"
    by (auto dest: CreateTask_InrD)
  from reach_create.prems have len: "int (length h) < 2 ^ 63 - 2" by simp
  then have inv: "counterInv h ts" using reach_create.IH by simp
  then have n: "sint (nextID ts) = int (length h) + 1" by (simp add: counterInv_def)
  with len have s: "sint (nextID ts + 1) = sint (nextID ts) + 1"
    by (intro sint_succ) simp
  have a: "sint (nextID ts') = int (length (ID task # h)) + 1"
    using d s n by simp
  have b: "fst ` set (tasks ts') \<subseteq> set (ID task # h)"
    using inv d by (auto simp: counterInv_def dom_update)
  have c: "\<forall>x \<in> set (ID task # h). sint x < sint (nextID ts')"
    using inv d s by (auto simp: counterInv_def)
  have e: "sorted_wrt (\<lambda>a b. sint b < sint a) (ID task # h)"
    using inv d by (auto simp: counterInv_def)
  show ?case
    unfolding counterInv_def using a b c e by blast
next
  case (reach_update c h ts now i req task ts')
  from reach_update.hyps(3) obtain old where d: "map_of (tasks ts) i = Some old"
    "tasks ts' = AList.update i task (tasks ts)" "nextID ts' = nextID ts"
    by (auto dest: UpdateTask_InrD)
  from d(1) have "i \<in> fst ` set (tasks ts)"
    by (rule map_of_Some_key)
  with reach_update.IH reach_update.prems d show ?case
    by (auto simp: counterInv_def dom_update)
next
  case (reach_delete c h ts i ts')
  from reach_delete.hyps(2) have d: "tasks ts' = AList.delete i (tasks ts)"
    "nextID ts' = nextID ts"
    by (auto dest: DeleteTask_InrD)
  with reach_delete.IH reach_delete.prems dom_delete_subset [of i "tasks ts"] show ?case
    by (auto simp: counterInv_def)
qed

text \<open>The tags of a stored task passed \<^verbatim>\<open>ValidateTagList\<close> when they were stored.\<close>

lemma reach_tags:
  "reach c h ts \<Longrightarrow> map_of (tasks ts) k = Some t \<Longrightarrow> ValidateTagList (Tags t) 10 50 = None"
proof (induction arbitrary: k t rule: reach.induct)
  case (reach_new c m)
  then show ?case by (simp add: emptyService_def)
next
  case (reach_create c h ts now1 now2 req task ts')
  from reach_create.hyps(4) have "ValidateTagList (Tags task) 10 50 = None"
    and "tasks ts' = AList.update (nextID ts) task (tasks ts)"
    by (auto simp: CreateTask_def Let_def validateCreateRequest_def orElse_None
        split: option.splits if_splits)
  with reach_create.IH reach_create.prems show ?case
    by (auto simp: update_conv' split: if_splits)
next
  case (reach_update c h ts now i req task ts')
  from reach_update.hyps(3) obtain old where old: "map_of (tasks ts) i = Some old"
    and ok: "validateUpdateRequest req = None"
    and tg: "Tags task = (case updTags req of None \<Rightarrow> Tags old | Some v \<Rightarrow> v)"
    and ts': "tasks ts' = AList.update i task (tasks ts)"
    by (auto simp: UpdateTask_def Let_def split: option.splits)
  from ok have "ValidateTagList (case updTags req of None \<Rightarrow> [] | Some v \<Rightarrow> v) 10 50 = None"
    by (simp add: validateUpdateRequest_def orElse_None)
  with tg reach_update.IH [OF old] have "ValidateTagList (Tags task) 10 50 = None"
    by (auto split: option.splits)
  with reach_update.IH reach_update.prems ts' show ?case
    by (auto simp: update_conv' split: if_splits)
next
  case (reach_delete c h ts i ts')
  from reach_delete.hyps(2) have "tasks ts' = AList.delete i (tasks ts)"
    by (auto dest: DeleteTask_InrD)
  with reach_delete.prems have "map_of (tasks ts) k = Some t"
    by (auto simp: delete_conv' split: if_splits)
  from reach_delete.IH [OF this] show ?case .
qed

subsection \<open>Services that are reachable\<close>

lemma sampleTasks_valid: "map validateCreateRequest sampleTasks = [None, None, None, None]"
  by code_simp

lemma NewTaskService_one:
  "length (tasks (NewTaskService 1 clock)) = 1 \<and> maxTasks (NewTaskService 1 clock) = 1"
  using sampleTasks_valid
  by (simp add: NewTaskService_def emptyService_def sampleTasks_def CreateTask_def Let_def)

text \<open>With a clock that never goes back, the service \<^verbatim>\<open>NewTaskService\<close> returns is reachable.\<close>

lemma addSampleTasks_reach:
  "reach c h ts \<Longrightarrow> mono clock \<Longrightarrow> c \<le> clock (2 * i) \<Longrightarrow>
     \<exists>c' h'. reach c' h' (addSampleTasks ts clock i reqs)"
proof (induction reqs arbitrary: c h ts i)
  case Nil
  then show ?case by auto
next
  case (Cons req reqs)
  from Cons.prems(2) have m1: "clock (2 * i) \<le> clock (2 * i + 1)"
    by (rule monoD) simp
  from Cons.prems(2) have m2: "clock (2 * i + 1) \<le> clock (2 * (i + 1))"
    by (rule monoD) simp
  show ?case
  proof (cases "CreateTask ts req (clock (2 * i)) (clock (2 * i + 1))")
    case (Inl e)
    from Cons.prems(3) m1 m2 have "c \<le> clock (2 * (i + 1))" by simp
    from Cons.IH [OF Cons.prems(1) Cons.prems(2) this] Inl show ?thesis by simp
  next
    case (Inr p)
    obtain task ts' where p: "p = (task, ts')" by (cases p)
    from reach_create [OF Cons.prems(1) Cons.prems(3) m1] Inr p
    have "reach (clock (2 * i + 1)) (ID task # h) ts'" by simp
    from Cons.IH [OF this Cons.prems(2) m2] Inr p show ?thesis by simp
  qed
qed

lemma NewTaskService_reachable: "mono clock \<Longrightarrow> reachable (NewTaskService m clock)"
  using addSampleTasks_reach [OF reach_new, of clock "clock 0" 0 m sampleTasks]
  by (simp add: NewTaskService_def reachable_def)

lemma exRequest_valid: "validateCreateRequest exRequest = None"
  by code_simp

lemma exRequest_create:
  "int (length (tasks ts)) < sint (maxTasks ts) \<Longrightarrow>
   CreateTask ts exRequest 0 0 =
     Inr (exTask (nextID ts),
          ts\<lparr> tasks := AList.update (nextID ts) (exTask (nextID ts)) (tasks ts),
              nextID := nextID ts + 1 \<rparr>)"
proof -
  have t: "TrimSpace ''Ship it'' = ''Ship it''" "TrimSpace [] = []"
    by code_simp+
  assume "int (length (tasks ts)) < sint (maxTasks ts)"
  then show ?thesis
    using exRequest_valid t
    by (simp add: CreateTask_def exTask_def Let_def) (simp add: exRequest_def)
qed

lemma exService_reach: "reach 0 [1] exService"
proof -
  have "CreateTask (emptyService 5) exRequest 0 0 = Inr (exTask 1, exService)"
    using exRequest_create [of "emptyService 5"]
    by (simp add: emptyService_def exService_def)
  from reach_create [OF reach_new _ _ this, of 0] show ?thesis
    by (simp add: exTask_def)
qed

text \<open>
  Creating a task and deleting it again, over and over, drives the counter to any
  value: with the maximum of one task, the empty service with the counter \<open>1 + n\<close> is
  reachable for every \<open>n\<close>.
\<close>

lemma reach_any_counter:
  "\<exists>h. reach 0 h \<lparr> tasks = [], nextID = 1 + of_nat n, maxTasks = 1 \<rparr>"
proof (induction n)
  case 0
  show ?case
    using reach_new [of 0 1] by (auto simp: emptyService_def)
next
  case (Suc n)
  let ?w = "1 + of_nat n :: goint"
  let ?s = "\<lparr> tasks = [], nextID = ?w, maxTasks = 1 \<rparr>"
  let ?s1 = "\<lparr> tasks = [(?w, exTask ?w)], nextID = ?w + 1, maxTasks = 1 \<rparr>"
  from Suc obtain h where r: "reach 0 h ?s" by blast
  have "CreateTask ?s exRequest 0 0 = Inr (exTask ?w, ?s1)"
    using exRequest_create [of ?s] by simp
  from reach_create [OF r _ _ this] have r1: "reach 0 (?w # h) ?s1"
    by (simp add: exTask_def)
  have "DeleteTask ?s1 ?w = Inr \<lparr> tasks = [], nextID = ?w + 1, maxTasks = 1 \<rparr>"
    by (simp add: DeleteTask_def)
  from reach_delete [OF r1 this] show ?case
    by (auto simp: add.commute add.left_commute)
qed

section \<open>Capacity (claim C1)\<close>

text \<open>
  Claim C1, as stated, at concrete inputs, on the service built with a maximum of one
  task. The claim says the first \<^verbatim>\<open>CreateTask\<close> succeeds; with a valid request it fails
  with the capacity error, because \<^verbatim>\<open>NewTaskService\<close> has already stored the first
  sample task. The claim says \<^verbatim>\<open>CreateTask\<close> fails with the capacity error whenever
  the number of tasks has reached the maximum; with an empty title it fails with the
  error of the validation, which runs first.
\<close>

theorem C1_first_create_fails_counterexample:
  "CreateTask (NewTaskService 1 (\<lambda>k. int k))
     \<lparr> reqTitle = ''New task'', reqDescription = [], reqStatus = [], reqPriority = [],
       reqAssignedTo = [], reqTags = [] \<rparr> 8 9
   = Inl (MaxTasksReached 1) \<and>
   CreateTask (NewTaskService 1 (\<lambda>k. int k))
     \<lparr> reqTitle = [], reqDescription = [], reqStatus = [], reqPriority = [],
       reqAssignedTo = [], reqTags = [] \<rparr> 8 9
   = Inl (FieldRequired ''title'')"
  by code_simp

text \<open>
  Claim C1, amended. For requests that pass validation: on the empty service with a
  maximum of one task (the service \<^verbatim>\<open>NewTaskService\<close> starts from) the first
  \<^verbatim>\<open>CreateTask\<close> succeeds and a second fails with the capacity error; on the service
  \<^verbatim>\<open>NewTaskService\<close> returns for the maximum one, which holds the first sample task,
  \<^verbatim>\<open>CreateTask\<close> fails with the capacity error; and on any service \<^verbatim>\<open>CreateTask\<close> fails
  with the capacity error exactly when the number of tasks is at least the maximum.
\<close>

theorem C1_capacity:
  assumes "validateCreateRequest req = None" and "validateCreateRequest req' = None"
  shows "(\<exists>task ts'. CreateTask (emptyService 1) req now1 now2 = Inr (task, ts') \<and>
            CreateTask ts' req' now3 now4 = Inl (MaxTasksReached 1)) \<and>
         CreateTask (NewTaskService 1 clock) req now1 now2 = Inl (MaxTasksReached 1) \<and>
         failsWithCapacityError (CreateTask ts req now1 now2)
           = (sint (maxTasks ts) \<le> int (length (tasks ts)))"
proof -
  have "\<exists>task ts'. CreateTask (emptyService 1) req now1 now2 = Inr (task, ts') \<and>
          CreateTask ts' req' now3 now4 = Inl (MaxTasksReached 1)"
    using assms by (simp add: CreateTask_def Let_def emptyService_def)
  moreover
  have "CreateTask (NewTaskService 1 clock) req now1 now2 = Inl (MaxTasksReached 1)"
    using assms(1) NewTaskService_one [of clock] by (simp add: CreateTask_def)
  moreover
  have "failsWithCapacityError (CreateTask ts req now1 now2)
          = (sint (maxTasks ts) \<le> int (length (tasks ts)))"
    using assms(1) by (simp add: failsWithCapacityError_def CreateTask_def Let_def)
  ultimately show ?thesis by blast
qed

text \<open>
  An instance of \<open>C1_capacity\<close>: a valid request on the service built with the maximum
  one, and on the empty service with the maximum one.
\<close>

theorem C1_capacity_witness:
  "validateCreateRequest \<lparr> reqTitle = ''New task'', reqDescription = [], reqStatus = [],
       reqPriority = [], reqAssignedTo = [], reqTags = [] \<rparr> = None \<and>
   CreateTask (NewTaskService 1 (\<lambda>k. 0))
     \<lparr> reqTitle = ''New task'', reqDescription = [], reqStatus = [],
       reqPriority = [], reqAssignedTo = [], reqTags = [] \<rparr> 5 5 = Inl (MaxTasksReached 1) \<and>
   failsWithCapacityError (CreateTask (emptyService 1)
     \<lparr> reqTitle = ''New task'', reqDescription = [], reqStatus = [],
       reqPriority = [], reqAssignedTo = [], reqTags = [] \<rparr> 5 5) = False"
proof -
  have v: "validateCreateRequest \<lparr> reqTitle = ''New task'', reqDescription = [],
       reqStatus = [], reqPriority = [], reqAssignedTo = [], reqTags = [] \<rparr> = None"
    by code_simp
  show ?thesis
    using v C1_capacity [OF v v, of 5 5 5 5 "\<lambda>k. 0" "emptyService 1"]
    by (simp add: emptyService_def)
qed

section \<open>Panics (claim C2)\<close>

text \<open>
  Claim C2 says that no operation of the service panics, whatever the limit and the
  offset of the filter. \<^verbatim>\<open>GetAllTasks\<close> on the service \<^verbatim>\<open>NewTaskService\<close> returns (it
  holds the four sample tasks) panics on a slice expression out of range in two
  cases, whatever the order of its loop over the map: for the limit
  9223372036854775807 with the offset 1, where \<^verbatim>\<open>offset + limit\<close> wraps around to a
  negative end index, and for the limit 1 with the offset -1.
\<close>

theorem C2_GetAllTasks_panics:
  "GetAllTasks (NewTaskService 100 (\<lambda>k. int k)) cs
     (Some \<lparr> filterStatus = [], filterPriority = [], filterAssignedTo = [], filterTags = [],
             Limit = 0x7FFFFFFFFFFFFFFF, Offset = 1 \<rparr>) = Inl SliceBoundsOutOfRange \<and>
   GetAllTasks (NewTaskService 100 (\<lambda>k. int k)) cs
     (Some \<lparr> filterStatus = [], filterPriority = [], filterAssignedTo = [], filterTags = [],
             Limit = 1, Offset = - 1 \<rparr>) = Inl SliceBoundsOutOfRange"
proof -
  let ?visited = "map snd (rangeOrder cs (tasks (NewTaskService 100 (\<lambda>k. int k))))"
  have "length (map snd (tasks (NewTaskService 100 (\<lambda>k. int k)))) = 4"
    by code_simp
  moreover have "mset (sortTasks ?visited) = mset (map snd (tasks (NewTaskService 100 (\<lambda>k. int k))))"
    by (simp only: mset_sortTasks mset_visited)
  ultimately have len: "length (sortTasks ?visited) = 4"
    by (metis mset_eq_length)
  show ?thesis
    by (simp add: GetAllTasks_def Let_def matchesFilter_def applyPagination_def slice_def len)
qed

section \<open>Create then get (claim C3)\<close>

text \<open>
  What \<^verbatim>\<open>GetTask\<close> returns for the ID of a task that \<^verbatim>\<open>CreateTask\<close> has just returned:
  the same task, with the trimmed title, description and assignee of the request, its
  status and priority or their defaults, its tags, and the two clock readings.
\<close>

lemma CreateTask_GetTask_roundtrip:
  assumes "CreateTask ts req now1 now2 = Inr (task, ts')"
  shows "GetTask ts' (ID task) = Inr task \<and>
         Title task = TrimSpace (reqTitle req) \<and>
         Description task = TrimSpace (reqDescription req) \<and>
         AssignedTo task = TrimSpace (reqAssignedTo req) \<and>
         Status task = (if reqStatus req = [] then ''pending'' else reqStatus req) \<and>
         Priority task = (if reqPriority req = [] then ''medium'' else reqPriority req) \<and>
         Tags task = reqTags req \<and>
         CreatedAt task = now1 \<and> UpdatedAt task = now2"
  using assms
  by (auto simp: CreateTask_def GetTask_def Let_def update_conv' split: option.splits if_splits)

text \<open>
  Claim C3 says that the record has equal \<^verbatim>\<open>CreatedAt\<close> and \<^verbatim>\<open>UpdatedAt\<close>.
  \<^verbatim>\<open>CreateTask\<close> calls \<^verbatim>\<open>time.Now()\<close> once for each of them; when the clock reads 8 at
  the first call and 9 at the second, the record \<^verbatim>\<open>GetTask\<close> returns has the
  timestamps 8 and 9.
\<close>

theorem C3_timestamps_differ:
  "(case CreateTask (NewTaskService 100 (\<lambda>k. int k))
           \<lparr> reqTitle = ''Ship it'', reqDescription = [], reqStatus = [], reqPriority = [],
             reqAssignedTo = [], reqTags = [] \<rparr> 8 9 of
      Inl e \<Rightarrow> False
    | Inr (task, ts') \<Rightarrow>
        GetTask ts' (ID task) = Inr task \<and> CreatedAt task = 8 \<and> UpdatedAt task = 9 \<and>
        CreatedAt task \<noteq> UpdatedAt task)"
  by code_simp

section \<open>Update of the title only (claim C4)\<close>

text \<open>
  Claim C4. In a reachable service, for an ID that is present and a request that
  supplies a title and nothing else, at a clock reading \<open>now\<close> that is not before the
  latest one: \<^verbatim>\<open>UpdateTask\<close> either fails with the error of the validation (the service
  stays as it was), or it returns the old task with the trimmed title and
  \<^verbatim>\<open>UpdatedAt = now\<close>; ID, description, status, priority, assignee, tags and
  \<^verbatim>\<open>CreatedAt\<close> are the old ones, the map holds the new task under the ID and is
  unchanged at every other key, the counter and the maximum are unchanged, and
  \<^verbatim>\<open>UpdatedAt\<close> has not decreased.
\<close>

theorem C4_update_title_only:
  assumes "reach c h ts" and "c \<le> now" and "map_of (tasks ts) i = Some old"
  shows "(case UpdateTask ts i \<lparr> updTitle = Some title, updDescription = None,
                 updStatus = None, updPriority = None, updAssignedTo = None,
                 updTags = None \<rparr> now of
            Inl e \<Rightarrow> validateUpdateRequest \<lparr> updTitle = Some title, updDescription = None,
                 updStatus = None, updPriority = None, updAssignedTo = None,
                 updTags = None \<rparr> = Some e
          | Inr (new, ts') \<Rightarrow>
              new = old\<lparr> Title := TrimSpace title, UpdatedAt := now \<rparr> \<and>
              ID new = ID old \<and> Description new = Description old \<and>
              Status new = Status old \<and> Priority new = Priority old \<and>
              AssignedTo new = AssignedTo old \<and> Tags new = Tags old \<and>
              CreatedAt new = CreatedAt old \<and>
              map_of (tasks ts') i = Some new \<and>
              (\<forall>k. k \<noteq> i \<longrightarrow> map_of (tasks ts') k = map_of (tasks ts) k) \<and>
              length (tasks ts') = length (tasks ts) \<and>
              nextID ts' = nextID ts \<and> maxTasks ts' = maxTasks ts \<and>
              UpdatedAt old \<le> UpdatedAt new)"
proof -
  from reach_stamps [OF assms(1) assms(3)] assms(2) have le: "UpdatedAt old \<le> now" by simp
  from assms(3) have "i \<in> fst ` set (tasks ts)"
    by (rule map_of_Some_key)
  then have len: "length (AList.update i v (tasks ts)) = length (tasks ts)" for v
    by (rule length_update_present)
  show ?thesis
    using assms(3) le len
    by (auto simp: UpdateTask_def Let_def update_conv' split: option.splits)
qed

text \<open>
  An instance of \<open>C4_update_title_only\<close>: the service with one task, created at the
  clock reading 0, whose title is updated to \<open>X\<close> (sent with surrounding blanks) at the
  reading 7.
\<close>

theorem C4_update_title_only_witness:
  "reach 0 [1] exService \<and> (0 :: int) \<le> 7 \<and>
   map_of (tasks exService) 1 = Some (exTask 1) \<and>
   (case UpdateTask exService 1 \<lparr> updTitle = Some '' X '', updDescription = None,
                 updStatus = None, updPriority = None, updAssignedTo = None,
                 updTags = None \<rparr> 7 of
      Inl e \<Rightarrow> False
    | Inr (new, ts') \<Rightarrow>
        new = (exTask 1)\<lparr> Title := ''X'', UpdatedAt := 7 \<rparr> \<and>
        UpdatedAt (exTask 1) \<le> UpdatedAt new \<and> nextID ts' = 2)"
proof -
  have le: "(0 :: int) \<le> 7" by simp
  have look: "map_of (tasks exService) 1 = Some (exTask 1)"
    by (simp add: exService_def)
  have ok: "validateUpdateRequest \<lparr> updTitle = Some '' X '', updDescription = None,
                 updStatus = None, updPriority = None, updAssignedTo = None,
                 updTags = None \<rparr> = None"
    by code_simp
  have tr: "TrimSpace '' X '' = ''X''"
    by code_simp
  from C4_update_title_only [OF exService_reach le look, where title = "'' X ''"] ok tr
    exService_reach look
  show ?thesis
    by (auto simp: exService_def split: sum.splits)
qed

section \<open>Listing with a filter (claim C5)\<close>

text \<open>
  Claim C5, as stated, at a concrete input: the filter whose only field that is set is
  the limit 1, on the service with the four sample tasks. No field of the conjunction
  is set, so by the claim all four tasks are returned; \<^verbatim>\<open>GetAllTasks\<close> returns one
  task, the newest, because it cuts the pagination window out of the matching tasks.
\<close>

theorem C5_window_counterexample:
  "map_sum id (map ID)
     (GetAllTasks (NewTaskService 100 (\<lambda>k. int k)) []
        (Some \<lparr> filterStatus = [], filterPriority = [], filterAssignedTo = [],
                filterTags = [], Limit = 1, Offset = 0 \<rparr>)) = Inr [4] \<and>
   map ID (filter (filterSpec \<lparr> filterStatus = [], filterPriority = [],
                     filterAssignedTo = [], filterTags = [], Limit = 1, Offset = 0 \<rparr>)
             (map snd (tasks (NewTaskService 100 (\<lambda>k. int k))))) = [1, 2, 3, 4]"
  by code_simp

text \<open>
  Claim C5, amended. For every service, every order of the loop over the map and every
  filter there is a list \<open>full\<close> that holds exactly the stored tasks that satisfy the
  filter of the specification (\<open>filterSpec\<close>: the conjunction of the fields that are not
  empty, with exact matches of status, priority and assignee and a shared tag), each
  once, the newest first, such that: \<^verbatim>\<open>GetAllTasks\<close> returns \<open>full\<close> when the filter asks
  for no pagination window (no positive limit or offset), and the pagination of
  \<open>full\<close> by the limit and the offset otherwise; for a limit and an offset that are not
  negative and whose sum does not overflow that pagination is the window of \<open>full\<close>
  from \<open>offset\<close> to \<open>offset + limit\<close>, cut at the end of \<open>full\<close>, and all of \<open>full\<close> from
  \<open>offset\<close> on when the limit is 0. Hence without a window the result is exactly the
  matching tasks, and the empty filter and the nil filter return all tasks.
\<close>

theorem C5_list_filter:
  "(\<exists>full. mset full = mset (filter (filterSpec f) (map snd (tasks ts))) \<and>
           sorted_wrt (\<lambda>a b. CreatedAt b \<le> CreatedAt a) full \<and>
           GetAllTasks ts cs (Some f) =
             (if 0 < sint (Limit f) \<or> 0 < sint (Offset f)
              then applyPagination full (Limit f) (Offset f) else Inr full) \<and>
           (0 \<le> sint (Limit f) \<and> 0 \<le> sint (Offset f) \<and>
            sint (Offset f) + sint (Limit f) < 2 ^ 63 \<longrightarrow>
              GetAllTasks ts cs (Some f) =
                Inr (if 0 < sint (Limit f)
                     then take (nat (sint (Limit f))) (drop (nat (sint (Offset f))) full)
                     else drop (nat (sint (Offset f))) full))) \<and>
   (\<not> (0 < sint (Limit f) \<or> 0 < sint (Offset f)) \<longrightarrow>
      (\<exists>r. GetAllTasks ts cs (Some f) = Inr r \<and>
           mset r = mset (filter (filterSpec f) (map snd (tasks ts))))) \<and>
   (\<exists>r. GetAllTasks ts cs (Some emptyFilter) = Inr r \<and>
        mset r = mset (map snd (tasks ts))) \<and>
   (\<exists>r. GetAllTasks ts cs None = Inr r \<and> mset r = mset (map snd (tasks ts)))"
proof -
  define full where "full = sortTasks (filter (filterSpec f) (map snd (rangeOrder cs (tasks ts))))"
  have m: "mset full = mset (filter (filterSpec f) (map snd (tasks ts)))"
    by (simp add: full_def mset_sortTasks mset_rangeOrder)
  have srt: "sorted_wrt (\<lambda>a b. CreatedAt b \<le> CreatedAt a) full"
    unfolding full_def by (rule sorted_sortTasks)
  have get: "GetAllTasks ts cs (Some f) =
      (if 0 < sint (Limit f) \<or> 0 < sint (Offset f)
       then applyPagination full (Limit f) (Offset f) else Inr full)"
    by (simp add: GetAllTasks_def Let_def matchesFilter_spec full_def)
  have win: "GetAllTasks ts cs (Some f) =
      Inr (if 0 < sint (Limit f)
           then take (nat (sint (Limit f))) (drop (nat (sint (Offset f))) full)
           else drop (nat (sint (Offset f))) full)"
    if "0 \<le> sint (Limit f) \<and> 0 \<le> sint (Offset f) \<and>
        sint (Offset f) + sint (Limit f) < 2 ^ 63"
  proof (cases "0 < sint (Limit f) \<or> 0 < sint (Offset f)")
    case True
    with that show ?thesis
      using applyPagination_window [of "Offset f" "Limit f" full] by (simp add: get)
  next
    case False
    with that have "sint (Limit f) = 0" and "sint (Offset f) = 0" by auto
    with False show ?thesis by (simp add: get)
  qed
  have first: "\<exists>full. mset full = mset (filter (filterSpec f) (map snd (tasks ts))) \<and>
           sorted_wrt (\<lambda>a b. CreatedAt b \<le> CreatedAt a) full \<and>
           GetAllTasks ts cs (Some f) =
             (if 0 < sint (Limit f) \<or> 0 < sint (Offset f)
              then applyPagination full (Limit f) (Offset f) else Inr full) \<and>
           (0 \<le> sint (Limit f) \<and> 0 \<le> sint (Offset f) \<and>
            sint (Offset f) + sint (Limit f) < 2 ^ 63 \<longrightarrow>
              GetAllTasks ts cs (Some f) =
                Inr (if 0 < sint (Limit f)
                     then take (nat (sint (Limit f))) (drop (nat (sint (Offset f))) full)
                     else drop (nat (sint (Offset f))) full))"
    using m srt get win by blast
  have second: "\<not> (0 < sint (Limit f) \<or> 0 < sint (Offset f)) \<longrightarrow>
      (\<exists>r. GetAllTasks ts cs (Some f) = Inr r \<and>
           mset r = mset (filter (filterSpec f) (map snd (tasks ts))))"
    using m get by auto
  have third: "\<exists>r. GetAllTasks ts cs (Some emptyFilter) = Inr r \<and>
      mset r = mset (map snd (tasks ts))"
    by (simp add: GetAllTasks_def mset_sortTasks mset_rangeOrder matchesFilter_def emptyFilter_def)
  have fourth: "\<exists>r. GetAllTasks ts cs None = Inr r \<and> mset r = mset (map snd (tasks ts))"
    by (simp add: GetAllTasks_def mset_sortTasks mset_rangeOrder matchesFilter_def)
  from first second third fourth show ?thesis by blast
qed

text \<open>
  Instances of \<open>C5_list_filter\<close> on the service with the four sample tasks, for one
  order of the loop: the limit 2 with the offset 3 returns the elements 3 and 4 of the
  full result, which has four tasks, hence one task; the filter with the status
  \<open>pending\<close> returns the matching tasks, those with the IDs 3 and 4.
\<close>

theorem C5_list_filter_witness:
  "(\<exists>full. mset full = mset (map snd (tasks (NewTaskService 100 (\<lambda>k. int k)))) \<and>
       GetAllTasks (NewTaskService 100 (\<lambda>k. int k)) [1]
          (Some \<lparr> filterStatus = [], filterPriority = [], filterAssignedTo = [],
                  filterTags = [], Limit = 2, Offset = 3 \<rparr>) = Inr (take 2 (drop 3 full))) \<and>
   (\<exists>r. GetAllTasks (NewTaskService 100 (\<lambda>k. int k)) [1]
          (Some \<lparr> filterStatus = ''pending'', filterPriority = [], filterAssignedTo = [],
                  filterTags = [], Limit = 0, Offset = 0 \<rparr>) = Inr r \<and>
        mset r = mset (filter (filterSpec \<lparr> filterStatus = ''pending'', filterPriority = [],
                  filterAssignedTo = [], filterTags = [], Limit = 0, Offset = 0 \<rparr>)
                  (map snd (tasks (NewTaskService 100 (\<lambda>k. int k)))))) \<and>
   map ID (filter (filterSpec \<lparr> filterStatus = ''pending'', filterPriority = [],
                  filterAssignedTo = [], filterTags = [], Limit = 0, Offset = 0 \<rparr>)
                  (map snd (tasks (NewTaskService 100 (\<lambda>k. int k))))) = [3, 4]"
proof -
  let ?S = "NewTaskService 100 (\<lambda>k. int k)"
  let ?W = "\<lparr> filterStatus = [], filterPriority = [], filterAssignedTo = [],
              filterTags = [], Limit = 2, Offset = 3 \<rparr>"
  let ?P = "\<lparr> filterStatus = ''pending'', filterPriority = [], filterAssignedTo = [],
              filterTags = [], Limit = 0, Offset = 0 \<rparr>"
  have ids: "map ID (filter (filterSpec ?P) (map snd (tasks ?S))) = [3, 4]"
    by code_simp
  have all: "filter (filterSpec ?W) xs = xs" for xs
    by (simp add: filterSpec_def)
  from C5_list_filter [where f = ?W and ts = ?S and cs = "[1]"]
  obtain full where "mset full = mset (filter (filterSpec ?W) (map snd (tasks ?S)))"
    and "0 \<le> sint (Limit ?W) \<and> 0 \<le> sint (Offset ?W) \<and>
         sint (Offset ?W) + sint (Limit ?W) < 2 ^ 63 \<longrightarrow>
         GetAllTasks ?S [1] (Some ?W) =
           Inr (if 0 < sint (Limit ?W)
                then take (nat (sint (Limit ?W))) (drop (nat (sint (Offset ?W))) full)
                else drop (nat (sint (Offset ?W))) full)"
    by blast
  then have window: "\<exists>full. mset full = mset (map snd (tasks ?S)) \<and>
      GetAllTasks ?S [1] (Some ?W) = Inr (take 2 (drop 3 full))"
    by (auto simp: all)
  from C5_list_filter [where f = ?P and ts = ?S and cs = "[1]"]
  have "\<exists>r. GetAllTasks ?S [1] (Some ?P) = Inr r \<and>
      mset r = mset (filter (filterSpec ?P) (map snd (tasks ?S)))"
    by simp
  with window ids show ?thesis by blast
qed

section \<open>Searching (claim C6)\<close>

text \<open>
  Claim C6, as stated, at a concrete input: the query \<open>structure\<close> followed by a blank,
  on the service with the four sample tasks. No title and no description contains
  this string, in any letter case, so by the claim nothing is returned;
  \<^verbatim>\<open>SearchTasks\<close> returns the task with the ID 1 (its title ends in \<open>structure\<close>),
  because it trims the query before it looks for it.
\<close>

theorem C6_query_is_trimmed_counterexample:
  "map ID (SearchTasks (NewTaskService 100 (\<lambda>k. int k)) []
      \<lparr> Query = ''structure '', Fields = [], Filters = emptyFilter, SortBy = [],
        SortDesc = False \<rparr>) = [1] \<and>
   filter (searchSpecVerbatim \<lparr> Query = ''structure '', Fields = [], Filters = emptyFilter,
                                SortBy = [], SortDesc = False \<rparr>)
      (map snd (tasks (NewTaskService 100 (\<lambda>k. int k)))) = []"
  by code_simp

text \<open>
  Claim C6, amended: whatever the order of its loop over the map, \<^verbatim>\<open>SearchTasks\<close>
  returns exactly the stored tasks, each once, that satisfy the embedded filter and
  whose searched fields (the requested ones among title and description, both when none
  is requested) contain the query, trimmed of surrounding white space, as a substring up
  to letter case; a hit in one searched field suffices, and a query that is empty after
  trimming matches every task.
\<close>

theorem C6_search_trimmed:
  "mset (SearchTasks ts cs q) =
     mset (filter (\<lambda>t. filterSpec (Filters q) t \<and> searchSpecTrimmed q t)
                  (map snd (tasks ts)))"
  by (simp add: SearchTasks_def mset_sortTasksBy matchesFilter_spec matchesSearchQuery_spec
      mset_rangeOrder)

text \<open>
  An instance of \<open>C6_search_trimmed\<close>: the query \<open>API\<close> on the service with the four
  sample tasks matches the task titled \<open>Implement API endpoints\<close> and the one whose
  description mentions the API.
\<close>

theorem C6_search_trimmed_witness:
  "mset (SearchTasks (NewTaskService 100 (\<lambda>k. int k)) [2, 0, 1]
      \<lparr> Query = ''API'', Fields = [], Filters = emptyFilter, SortBy = [], SortDesc = False \<rparr>) =
   mset (filter (\<lambda>t. filterSpec emptyFilter t \<and>
                     searchSpecTrimmed \<lparr> Query = ''API'', Fields = [], Filters = emptyFilter,
                                         SortBy = [], SortDesc = False \<rparr> t)
          (map snd (tasks (NewTaskService 100 (\<lambda>k. int k))))) \<and>
   map Title (filter (\<lambda>t. filterSpec emptyFilter t \<and>
                     searchSpecTrimmed \<lparr> Query = ''API'', Fields = [], Filters = emptyFilter,
                                         SortBy = [], SortDesc = False \<rparr> t)
          (map snd (tasks (NewTaskService 100 (\<lambda>k. int k))))) =
     [''Implement API endpoints'', ''Write documentation'']"
proof -
  have "map Title (filter (\<lambda>t. filterSpec emptyFilter t \<and>
                     searchSpecTrimmed \<lparr> Query = ''API'', Fields = [], Filters = emptyFilter,
                                         SortBy = [], SortDesc = False \<rparr> t)
          (map snd (tasks (NewTaskService 100 (\<lambda>k. int k))))) =
     [''Implement API endpoints'', ''Write documentation'']"
    by code_simp
  then show ?thesis
    using C6_search_trimmed [where ts = "NewTaskService 100 (\<lambda>k. int k)"
        and cs = "[2, 0, 1]"
        and q = "\<lparr> Query = ''API'', Fields = [], Filters = emptyFilter, SortBy = [],
                  SortDesc = False \<rparr>"]
    by simp
qed

section \<open>Pagination (claim C7)\<close>

text \<open>
  Claim C7 says that for every non-negative offset and limit the result is the window
  from \<open>offset\<close> to \<open>offset + limit\<close>, cut at the end of the list. On the four sample
  tasks, with the offset 1 and the limit 9223372036854775807, that window holds the
  last three tasks; \<^verbatim>\<open>applyPagination\<close> panics, because \<^verbatim>\<open>offset + limit\<close> wraps around
  to a negative number, which is below the length and becomes the end index.
  (\<open>applyPagination_window\<close> above is the claim for the offsets and limits whose sum
  does not overflow.)
\<close>

theorem C7_window_overflow:
  "length (map snd (tasks (NewTaskService 100 (\<lambda>k. int k)))) = 4 \<and>
   applyPagination (map snd (tasks (NewTaskService 100 (\<lambda>k. int k)))) 0x7FFFFFFFFFFFFFFF 1
     = Inl SliceBoundsOutOfRange"
  by code_simp

section \<open>Bounds on tags (claim C8)\<close>

text \<open>
  In a reachable service a task has at most 10 tags, and each tag, once trimmed of
  surrounding white space, is not empty and at most 50 bytes long.
\<close>

lemma reach_tag_bounds:
  assumes "reach c h ts" and "map_of (tasks ts) k = Some t"
  shows "length (Tags t) \<le> 10 \<and>
         (\<forall>tag \<in> set (Tags t). TrimSpace tag \<noteq> [] \<and> length (TrimSpace tag) \<le> 50)"
  using reach_tags [OF assms] by (rule ValidateTagList_NoneD)

text \<open>
  Claim C8 says that every stored tag is at most 50 characters long.
  \<^verbatim>\<open>ValidateTagList\<close> measures the trimmed tag, and \<^verbatim>\<open>CreateTask\<close> stores the tag as it
  came: the tag \<open>x\<close> followed by 50 blanks passes, and the reachable service that
  results stores it with its 51 bytes.
\<close>

theorem C8_stored_tag_longer_than_50:
  "(case CreateTask (emptyService 5)
           \<lparr> reqTitle = ''Ship it'', reqDescription = [], reqStatus = [], reqPriority = [],
             reqAssignedTo = [], reqTags = [CHR ''x'' # replicate 50 CHR '' ''] \<rparr> 0 0 of
      Inl e \<Rightarrow> False
    | Inr (task, ts') \<Rightarrow>
        reachable ts' \<and> GetTask ts' 1 = Inr task \<and> map length (Tags task) = [51])"
proof -
  let ?req = "\<lparr> reqTitle = ''Ship it'', reqDescription = [], reqStatus = [],
                reqPriority = [], reqAssignedTo = [],
                reqTags = [CHR ''x'' # replicate 50 CHR '' ''] \<rparr>"
  obtain task ts' where cr: "CreateTask (emptyService 5) ?req 0 0 = Inr (task, ts')"
    and get: "GetTask ts' 1 = Inr task" and len: "map length (Tags task) = [51]"
  proof -
    have "(case CreateTask (emptyService 5) ?req 0 0 of
             Inl e \<Rightarrow> False
           | Inr (task, ts') \<Rightarrow> GetTask ts' 1 = Inr task \<and> map length (Tags task) = [51])"
      by code_simp
    with that show thesis
      by (auto split: sum.splits)
  qed
  from reach_create [OF reach_new _ _ cr, of 0] have "reachable ts'"
    unfolding reachable_def by auto
  with cr get len show ?thesis by simp
qed

section \<open>Task IDs (claim C9)\<close>

text \<open>
  Claim C9, as stated, at a concrete service: the one that holds a task under the ID
  \<open>2 ^ 63 - 1\<close>, the largest Go int, with the counter \<open>- 2 ^ 63\<close>. It is reachable: a
  create and a delete, repeated, bring the counter of an empty service to
  \<open>2 ^ 63 - 1\<close>, and the next create stores that ID and wraps the counter around. The
  claim says the counter of a reachable service is above every stored ID.
\<close>

theorem C9_counter_wraps_counterexample:
  "reachable \<lparr> tasks = [(0x7FFFFFFFFFFFFFFF, exTask 0x7FFFFFFFFFFFFFFF)],
               nextID = 0x8000000000000000, maxTasks = 1 \<rparr> \<and>
   GetTask \<lparr> tasks = [(0x7FFFFFFFFFFFFFFF, exTask 0x7FFFFFFFFFFFFFFF)],
               nextID = 0x8000000000000000, maxTasks = 1 \<rparr> 0x7FFFFFFFFFFFFFFF
     = Inr (exTask 0x7FFFFFFFFFFFFFFF) \<and>
   \<not> sint (0x7FFFFFFFFFFFFFFF :: goint) < sint (0x8000000000000000 :: goint)"
proof -
  let ?w = "0x7FFFFFFFFFFFFFFF :: goint"
  let ?s = "\<lparr> tasks = [], nextID = ?w, maxTasks = 1 \<rparr>"
  from reach_any_counter [of 9223372036854775806] obtain h where r: "reach 0 h ?s"
    by auto
  have "CreateTask ?s exRequest 0 0 =
      Inr (exTask ?w, \<lparr> tasks = [(?w, exTask ?w)], nextID = 0x8000000000000000,
                        maxTasks = 1 \<rparr>)"
    using exRequest_create [of ?s] by simp
  from reach_create [OF r _ _ this] have
    "reach 0 (?w # h) \<lparr> tasks = [(?w, exTask ?w)], nextID = 0x8000000000000000,
                        maxTasks = 1 \<rparr>"
    by (simp add: exTask_def)
  then have "reachable \<lparr> tasks = [(?w, exTask ?w)], nextID = 0x8000000000000000,
                         maxTasks = 1 \<rparr>"
    unfolding reachable_def by blast
  then show ?thesis
    by (simp add: GetTask_def)
qed

text \<open>
  Claim C9, amended: it holds while fewer than \<open>2 ^ 63 - 1\<close> IDs have been assigned.
  For a service reached with the assigned IDs \<open>h\<close> (the latest first), where \<open>h\<close> has
  fewer than \<open>2 ^ 63 - 1\<close> entries: every stored task carries the ID it is stored
  under, that ID has been assigned and is below the counter; every assigned ID is below
  the counter; each ID was larger than all those assigned before it, so no ID was
  assigned twice; and a \<^verbatim>\<open>CreateTask\<close> that succeeds assigns the counter's value, which
  is above every ID assigned so far and hence none of them, whether its task
  has been deleted or not.
\<close>

theorem C9_ids_not_reused:
  assumes "reach c h ts" and "int (length h) < 2 ^ 63 - 1"
  shows "(\<forall>k t. map_of (tasks ts) k = Some t \<longrightarrow>
            ID t = k \<and> k \<in> set h \<and> sint k < sint (nextID ts)) \<and>
         (\<forall>x \<in> set h. sint x < sint (nextID ts)) \<and>
         sorted_wrt (\<lambda>a b. sint b < sint a) h \<and> distinct h \<and>
         (\<forall>req now1 now2 task ts'. CreateTask ts req now1 now2 = Inr (task, ts') \<longrightarrow>
            ID task = nextID ts \<and> ID task \<notin> set h \<and>
            (\<forall>x \<in> set h. sint x < sint (ID task)))"
proof -
  from assms have inv: "counterInv h ts" by (rule reach_counter)
  have keys: "fst ` set (tasks ts) \<subseteq> set h"
    and below: "\<forall>x \<in> set h. sint x < sint (nextID ts)"
    and srt: "sorted_wrt (\<lambda>a b. sint b < sint a) h"
    using inv unfolding counterInv_def by blast+
  have stored: "ID t = k \<and> k \<in> set h \<and> sint k < sint (nextID ts)"
    if "map_of (tasks ts) k = Some t" for k t
  proof -
    from that have "k \<in> fst ` set (tasks ts)"
      by (rule map_of_Some_key)
    with keys below reach_stamps [OF assms(1) that] show ?thesis
      by blast
  qed
  from srt have dist: "distinct h"
    by (induction h) auto
  have fresh: "ID task = nextID ts \<and> ID task \<notin> set h \<and>
      (\<forall>x \<in> set h. sint x < sint (ID task))"
    if "CreateTask ts req now1 now2 = Inr (task, ts')" for req now1 now2 task ts'
  proof -
    from that have "ID task = nextID ts" by (auto dest: CreateTask_InrD)
    with below show ?thesis by auto
  qed
  from stored below srt dist fresh show ?thesis by blast
qed

text \<open>
  An instance of \<open>C9_ids_not_reused\<close>: the service with one task, to which the ID 1 has
  been assigned; the next \<^verbatim>\<open>CreateTask\<close> assigns the ID 2.
\<close>

theorem C9_ids_not_reused_witness:
  "reach 0 [1] exService \<and> int (length [1 :: goint]) < 2 ^ 63 - 1 \<and>
   map_of (tasks exService) 1 = Some (exTask 1) \<and>
   ID (exTask 1) = 1 \<and> sint (1 :: goint) < sint (nextID exService) \<and>
   distinct [1 :: goint] \<and>
   (case CreateTask exService exRequest 0 0 of
      Inl e \<Rightarrow> False
    | Inr (task, ts') \<Rightarrow> ID task = 2 \<and> sint (1 :: goint) < sint (ID task))"
proof -
  have len: "int (length [1 :: goint]) < 2 ^ 63 - 1" by simp
  have look: "map_of (tasks exService) 1 = Some (exTask 1)"
    by (simp add: exService_def)
  have cr: "CreateTask exService exRequest 0 0 =
      Inr (exTask 2, exService\<lparr> tasks := AList.update 2 (exTask 2) (tasks exService),
                                nextID := 3 \<rparr>)"
    using exRequest_create [of exService] by (simp add: exService_def)
  from C9_ids_not_reused [OF exService_reach len] look cr exService_reach len
  show ?thesis
    by (auto simp: exTask_def)
qed

section \<open>Searching ignores the pagination window (claim C10)\<close>

text \<open>
  Claim C10, as stated, at a concrete input: a search sorted by priority, the lowest
  first, on the service with the four sample tasks, once with the limit 1 and once
  without. The sample tasks 1 and 2 both have the priority \<open>high\<close>. The claim says the
  two queries return the same sequence. The call whose loop visits the entries in the
  order 1, 2, 3, 4 returns the tasks 4, 3, 1, 2; the call whose loop visits them in the
  order 2, 1, 3, 4 returns the tasks 4, 3, 2, 1.
\<close>

theorem C10_order_of_ties_counterexample:
  "map ID (SearchTasks (NewTaskService 100 (\<lambda>k. int k)) []
      \<lparr> Query = [], Fields = [], Filters = emptyFilter\<lparr> Limit := 1 \<rparr>,
        SortBy = ''priority'', SortDesc = False \<rparr>) = [4, 3, 1, 2] \<and>
   map ID (SearchTasks (NewTaskService 100 (\<lambda>k. int k)) [1]
      \<lparr> Query = [], Fields = [], Filters = emptyFilter,
        SortBy = ''priority'', SortDesc = False \<rparr>) = [4, 3, 2, 1]"
  by code_simp

text \<open>
  Claim C10, amended. The limit and the offset of the embedded filter have no effect on
  \<^verbatim>\<open>SearchTasks\<close>: a query, and the same query with any other limit and offset, return
  the same tasks, whatever the orders of the two loops over the map; what is returned
  holds every stored task that matches the filter and the search term, each once (no
  window is cut out of it); and both results ascend by the key of the requested
  order, so the two sequences differ at most in the order of tasks that tie on that
  key.
\<close>

theorem C10_search_ignores_window:
  "mset (SearchTasks ts csa (q\<lparr> Filters := (Filters q)\<lparr> Limit := l, Offset := off \<rparr> \<rparr>))
     = mset (SearchTasks ts csb q) \<and>
   mset (SearchTasks ts csb q) =
     mset (filter (\<lambda>t. matchesFilter t (Some (Filters q)) \<and>
                        matchesSearchQuery t (ToLower (TrimSpace (Query q))) (Fields q))
                  (map snd (tasks ts))) \<and>
   sorted_wrt (\<lambda>a b. sortKey (SortBy q) (SortDesc q) a \<le> sortKey (SortBy q) (SortDesc q) b)
     (SearchTasks ts csa (q\<lparr> Filters := (Filters q)\<lparr> Limit := l, Offset := off \<rparr> \<rparr>)) \<and>
   sorted_wrt (\<lambda>a b. sortKey (SortBy q) (SortDesc q) a \<le> sortKey (SortBy q) (SortDesc q) b)
     (SearchTasks ts csb q)"
proof -
  have m: "mset (SearchTasks ts cs q') =
      mset (filter (\<lambda>t. matchesFilter t (Some (Filters q')) \<and>
                         matchesSearchQuery t (ToLower (TrimSpace (Query q'))) (Fields q'))
                   (map snd (tasks ts)))" for cs q'
    by (simp add: SearchTasks_def mset_sortTasksBy mset_rangeOrder)
  have srt: "sorted_wrt (\<lambda>a b. sortKey (SortBy q') (SortDesc q') a
                              \<le> sortKey (SortBy q') (SortDesc q') b)
      (SearchTasks ts cs q')" for cs q'
    by (simp add: SearchTasks_def Let_def sorted_sortTasksBy)
  show ?thesis
    using m [of csa "q\<lparr> Filters := (Filters q)\<lparr> Limit := l, Offset := off \<rparr> \<rparr>"] m [of csb q]
      srt [of "q\<lparr> Filters := (Filters q)\<lparr> Limit := l, Offset := off \<rparr> \<rparr>" csa] srt [of q csb]
    by (simp add: matchesFilter_window)
qed

text \<open>
  An instance of \<open>C10_search_ignores_window\<close>: the query \<open>API\<close> with the limit 1 and
  the offset 1 returns both matching sample tasks, as it does without them, under two
  orders of the loop.
\<close>

theorem C10_search_ignores_window_witness:
  "mset (SearchTasks (NewTaskService 100 (\<lambda>k. int k)) []
      \<lparr> Query = ''API'', Fields = [], Filters = emptyFilter\<lparr> Limit := 1, Offset := 1 \<rparr>,
        SortBy = [], SortDesc = False \<rparr>) =
   mset (SearchTasks (NewTaskService 100 (\<lambda>k. int k)) [1]
      \<lparr> Query = ''API'', Fields = [], Filters = emptyFilter, SortBy = [], SortDesc = False \<rparr>) \<and>
   map ID (SearchTasks (NewTaskService 100 (\<lambda>k. int k)) [1]
      \<lparr> Query = ''API'', Fields = [], Filters = emptyFilter, SortBy = [], SortDesc = False \<rparr>)
     = [4, 2]"
proof -
  have "map ID (SearchTasks (NewTaskService 100 (\<lambda>k. int k)) [1]
      \<lparr> Query = ''API'', Fields = [], Filters = emptyFilter, SortBy = [], SortDesc = False \<rparr>)
     = [4, 2]"
    by code_simp
  then show ?thesis
    using C10_search_ignores_window [where ts = "NewTaskService 100 (\<lambda>k. int k)"
        and csa = "[]" and csb = "[1]"
        and q = "\<lparr> Query = ''API'', Fields = [], Filters = emptyFilter, SortBy = [],
                  SortDesc = False \<rparr>"
        and l = 1 and off = 1]
    by simp
qed

end
